theory Spec2Isabelle
  imports Complex_Main
begin

section \<open>Numbers of the language\<close>

text \<open>
  A Number is a double: NaN, one of the two infinities, or a finite value. An
  arithmetic operation on finite values computes the exact result and rounds it to a
  double; the rounding (for IEEE 754: to the nearest double, ties to even, beyond the
  range to an infinity) is a parameter of the model, so that nothing proved depends on
  how a result is rounded. Comparisons are exact, and false as soon as one side is NaN.
  One zero is enough here: the only divisors of the code are the constant 2 and
  \<open>window.innerWidth\<close>, which is never the negative zero.
\<close>

datatype jsnum = NaN | PosInf | NegInf | Num real

type_synonym rounding = "real \<Rightarrow> jsnum"

text \<open>The infinity of a sign: \<open>True\<close> is positive.\<close>

definition infinity :: "bool \<Rightarrow> jsnum" where
  "infinity positive = (if positive then PosInf else NegInf)"

text \<open>
  The rounding of IEEE 754 for the 64-bit format: a double is an integer of less than
  54 bits times a power of two, the exponent of the unit in the last place being at
  least -1074; a result is rounded to the nearest such number, a tie to the one with
  the even integer, and a result that rounds to \<open>2 ^ 1024\<close> or beyond becomes an
  infinity.
\<close>

definition round_half_even :: "real \<Rightarrow> int" where
  "round_half_even q =
     (let f = \<lfloor>q\<rfloor>
      in if q - of_int f < 1 / 2 then f
         else if 1 / 2 < q - of_int f then f + 1
         else if even f then f else f + 1)"

definition binary_exponent :: "real \<Rightarrow> int" where
  "binary_exponent x = max \<lfloor>log 2 \<bar>x\<bar>\<rfloor> (- 1022)"

definition round_to_double :: rounding where
  "round_to_double x =
     (if x = 0 then Num 0
      else let ulp = 2 powi (binary_exponent x - 52);
               y = of_int (round_half_even (x / ulp)) * ulp
           in if 2 ^ 1024 \<le> \<bar>y\<bar> then infinity (0 < x) else Num y)"

fun js_neg :: "jsnum \<Rightarrow> jsnum" where
  "js_neg NaN = NaN"
| "js_neg PosInf = NegInf"
| "js_neg NegInf = PosInf"
| "js_neg (Num x) = Num (- x)"

fun js_add :: "rounding \<Rightarrow> jsnum \<Rightarrow> jsnum \<Rightarrow> jsnum" where
  "js_add R (Num x) (Num y) = R (x + y)"
| "js_add R NaN b = NaN"
| "js_add R a NaN = NaN"
| "js_add R PosInf NegInf = NaN"
| "js_add R NegInf PosInf = NaN"
| "js_add R PosInf b = PosInf"
| "js_add R NegInf b = NegInf"
| "js_add R (Num x) b = b"

definition js_sub :: "rounding \<Rightarrow> jsnum \<Rightarrow> jsnum \<Rightarrow> jsnum" where
  "js_sub R a b = js_add R a (js_neg b)"

fun js_mul :: "rounding \<Rightarrow> jsnum \<Rightarrow> jsnum \<Rightarrow> jsnum" where
  "js_mul R (Num x) (Num y) = R (x * y)"
| "js_mul R NaN b = NaN"
| "js_mul R a NaN = NaN"
| "js_mul R (Num x) b = (if x = 0 then NaN else infinity ((0 < x) = (b = PosInf)))"
| "js_mul R a (Num y) = (if y = 0 then NaN else infinity ((0 < y) = (a = PosInf)))"
| "js_mul R PosInf PosInf = PosInf"
| "js_mul R PosInf NegInf = NegInf"
| "js_mul R NegInf PosInf = NegInf"
| "js_mul R NegInf NegInf = PosInf"

fun js_div :: "rounding \<Rightarrow> jsnum \<Rightarrow> jsnum \<Rightarrow> jsnum" where
  "js_div R (Num x) (Num y) =
     (if y = 0 then (if x = 0 then NaN else infinity (0 < x)) else R (x / y))"
| "js_div R NaN b = NaN"
| "js_div R a NaN = NaN"
| "js_div R (Num x) b = Num 0"
| "js_div R a (Num y) = infinity ((0 \<le> y) = (a = PosInf))"
| "js_div R PosInf PosInf = NaN"
| "js_div R PosInf NegInf = NaN"
| "js_div R NegInf PosInf = NaN"
| "js_div R NegInf NegInf = NaN"

fun js_lt :: "jsnum \<Rightarrow> jsnum \<Rightarrow> bool" where
  "js_lt (Num x) (Num y) = (x < y)"
| "js_lt NaN b = False"
| "js_lt a NaN = False"
| "js_lt a NegInf = False"
| "js_lt PosInf b = False"
| "js_lt NegInf (Num y) = True"
| "js_lt NegInf PosInf = True"
| "js_lt (Num x) PosInf = True"

definition js_le :: "jsnum \<Rightarrow> jsnum \<Rightarrow> bool" where
  "js_le a b = (js_lt a b \<or> (a \<noteq> NaN \<and> a = b))"

definition js_gt :: "jsnum \<Rightarrow> jsnum \<Rightarrow> bool" where
  "js_gt a b = js_lt b a"

definition js_ge :: "jsnum \<Rightarrow> jsnum \<Rightarrow> bool" where
  "js_ge a b = js_le b a"

text \<open>\<open>Math.min\<close> of two numbers and \<open>Math.round\<close> (to the nearest integer, a half goes
  up; the result of rounding a double is a double).\<close>

definition Math_min :: "jsnum \<Rightarrow> jsnum \<Rightarrow> jsnum" where
  "Math_min a b = (if a = NaN \<or> b = NaN then NaN else if js_le a b then a else b)"

fun Math_round :: "jsnum \<Rightarrow> jsnum" where
  "Math_round (Num x) = Num (of_int \<lfloor>x + 1 / 2\<rfloor>)"
| "Math_round a = a"

text \<open>
  The string of a computed style: \<open>Dimension x u\<close> is the decimal number \<open>x\<close>,
  written with its integer part, followed by the unit \<open>u\<close> (\<open>10.5px\<close>);
  \<open>Keyword k\<close> is a string that does not start with a number (\<open>auto\<close>, \<open>none\<close>, the
  empty string). \<open>parseInt\<close> reads the digits before the decimal point, \<open>parseFloat\<close>
  the whole number.
\<close>

datatype css_text = Dimension real string | Keyword string

fun parseInt :: "rounding \<Rightarrow> css_text \<Rightarrow> jsnum" where
  "parseInt R (Dimension x u) = R (if 0 \<le> x then of_int \<lfloor>x\<rfloor> else of_int \<lceil>x\<rceil>)"
| "parseInt R (Keyword k) = NaN"

fun parseFloat :: "rounding \<Rightarrow> css_text \<Rightarrow> jsnum" where
  "parseFloat R (Dimension x u) = R x"
| "parseFloat R (Keyword k) = NaN"

section \<open>The DOM, as far as the footnote engine touches it\<close>

text \<open>
  Nodes are identified by numbers. The tree structure is a rose tree; class lists,
  attributes and inline styles live in stores keyed by node.
\<close>

type_synonym node = nat

datatype dom = Elem (nid: node) (kids: "dom list")

datatype Position = above | below

subsection \<open>The page\<close>

text \<open>
  Inline style values written by the code:
  \<open>Px n\<close> is the string \<open>n + 'px'\<close>, \<open>Percent n\<close> is \<open>n + '%'\<close>, and
  \<open>Origin x y\<close> is \<open>x + '%' + ' ' + y\<close> (the transform origin).
\<close>

datatype css_value = Px jsnum | Percent jsnum | Origin jsnum string

text \<open>Every write call issued against the DOM, in the order of issue.\<close>

datatype dom_write =
    SetAttribute node string string
  | RemoveAttribute node string
  | ClassAdd node string
  | ClassRemove node string
  | SetStyle node string css_value
  | InsertAfterend node node
  | RemoveNode node

record page =
  doc :: dom
  detached :: "dom list"
  classes :: "node \<Rightarrow> string set"
  attrs :: "node \<Rightarrow> string \<rightharpoonup> string"
  styles :: "node \<Rightarrow> string \<rightharpoonup> css_value"
  writes :: "dom_write list"

text \<open>
  \<open>doc\<close> is the tree rooted at \<open>document.body\<close>; \<open>detached\<close> are the trees that are
  not connected to the document. The parent of \<open>document.body\<close> is outside the model.
  \<open>styles\<close> holds the string last assigned to each property of an element's inline
  style; what the style engine makes of that string (it drops one that does not
  parse, such as \<open>NaNpx\<close>) is part of what the layout reports.
\<close>

text \<open>
  What the browser's layout engine reports for a page. It is not part of the
  repository: it is a parameter of every function that measures, and it is asked again
  after every write, as reading \<open>offsetHeight\<close> after a style change forces a new
  layout. The measured lengths are finite numbers. \<open>computedStyle el prop\<close> is the
  string that \<open>getStyle(el, prop)\<close> of the package @pacote/get-style returns, and
  \<open>pixels s el\<close> is what \<open>pixels(s, el)\<close> of the package @pacote/pixels makes of it.
\<close>

record layout =
  offsetHeight :: "node \<Rightarrow> real"
  offsetWidth :: "node \<Rightarrow> real"
  clientHeight :: "node \<Rightarrow> real"
  clientWidth :: "node \<Rightarrow> real"
  scrollHeight :: "node \<Rightarrow> real"
  scrollTop :: "node \<Rightarrow> real"
  rectTop :: "node \<Rightarrow> real"
  rectLeft :: "node \<Rightarrow> real"
  computedStyle :: "node \<Rightarrow> string \<Rightarrow> css_text"
  pixels :: "css_text \<Rightarrow> node \<Rightarrow> jsnum"
  innerHeight :: real
  innerWidth :: real

text \<open>The browser: its layout engine and the rounding of its arithmetic.\<close>

record browser =
  layout_of :: "page \<Rightarrow> layout"
  rnd :: rounding

subsection \<open>element.ts\<close>

definition addClass :: "node \<Rightarrow> string \<Rightarrow> page \<Rightarrow> page" where
  "addClass element className w =
     w\<lparr>classes := (classes w)(element := insert className (classes w element)),
       writes := writes w @ [ClassAdd element className]\<rparr>"

definition removeClass :: "node \<Rightarrow> string \<Rightarrow> page \<Rightarrow> page" where
  "removeClass element className w =
     w\<lparr>classes := (classes w)(element := classes w element - {className}),
       writes := writes w @ [ClassRemove element className]\<rparr>"

definition hasClass :: "node \<Rightarrow> string \<Rightarrow> page \<Rightarrow> bool" where
  "hasClass element className w = (className \<in> classes w element)"

subsection \<open>Attribute and style writes\<close>

definition setAttribute :: "node \<Rightarrow> string \<Rightarrow> string \<Rightarrow> page \<Rightarrow> page" where
  "setAttribute element name v w =
     w\<lparr>attrs := (attrs w)(element := (attrs w element)(name \<mapsto> v)),
       writes := writes w @ [SetAttribute element name v]\<rparr>"

definition removeAttribute :: "node \<Rightarrow> string \<Rightarrow> page \<Rightarrow> page" where
  "removeAttribute element name w =
     w\<lparr>attrs := (attrs w)(element := (attrs w element)(name := None)),
       writes := writes w @ [RemoveAttribute element name]\<rparr>"

definition setStyle :: "node \<Rightarrow> string \<Rightarrow> css_value \<Rightarrow> page \<Rightarrow> page" where
  "setStyle element prop v w =
     w\<lparr>styles := (styles w)(element := (styles w element)(prop \<mapsto> v)),
       writes := writes w @ [SetStyle element prop v]\<rparr>"

section \<open>layout.ts\<close>

definition position_name :: "Position \<Rightarrow> string" where
  "position_name p = (case p of above \<Rightarrow> ''above'' | below \<Rightarrow> ''below'')"

definition getLeftRelative :: "browser \<Rightarrow> node \<Rightarrow> page \<Rightarrow> jsnum" where
  "getLeftRelative B element w =
     (let L = layout_of B w;
          marginLeft = parseFloat (rnd B) (computedStyle L element ''marginLeft'');
          width = js_sub (rnd B) (Num (offsetWidth L element)) marginLeft;
          left = js_add (rnd B) (Num (rectLeft L element)) (js_div (rnd B) width (Num 2))
      in js_div (rnd B) left (Num (innerWidth L)))"

definition getLeftInPixels :: "browser \<Rightarrow> node \<Rightarrow> node \<Rightarrow> page \<Rightarrow> jsnum" where
  "getLeftInPixels B content button w =
     (let L = layout_of B w;
          maxWidth = Num (offsetWidth L content);
          leftRelative = getLeftRelative B button w;
          buttonMarginLeft = parseInt (rnd B) (computedStyle L button ''marginLeft'')
      in js_add (rnd B)
           (js_add (rnd B) (js_mul (rnd B) (js_neg leftRelative) maxWidth) buttonMarginLeft)
           (js_div (rnd B) (Num (offsetWidth L button)) (Num 2)))"

definition getMaxHeight :: "browser \<Rightarrow> node \<Rightarrow> page \<Rightarrow> jsnum" where
  "getMaxHeight B element w =
     (let L = layout_of B w
      in Math_round (pixels L (computedStyle L element ''maxHeight'') element))"

definition getFootnotePosition :: "browser \<Rightarrow> node \<Rightarrow> node \<Rightarrow> page \<Rightarrow> Position \<times> jsnum" where
  "getFootnotePosition B button popover w =
     (let L = layout_of B w;
          marginSize = parseInt (rnd B) (computedStyle L popover ''marginTop'');
          popoverHeight = js_add (rnd B) (js_mul (rnd B) (Num 2) marginSize)
                            (Num (offsetHeight L popover));
          roomAbove = js_add (rnd B) (Num (rectTop L button))
                        (js_div (rnd B) (Num (offsetHeight L button)) (Num 2));
          roomBelow = js_sub (rnd B) (Num (innerHeight L)) roomAbove
      in if js_ge roomBelow popoverHeight \<or> js_ge roomBelow roomAbove
         then (below, js_sub (rnd B) (js_sub (rnd B) roomBelow marginSize) (Num 15))
         else (above, js_sub (rnd B) (js_sub (rnd B) roomAbove marginSize) (Num 15)))"

definition repositionPopover ::
  "browser \<Rightarrow> node \<Rightarrow> node \<Rightarrow> Position \<Rightarrow> page \<Rightarrow> (Position \<times> jsnum) \<times> page" where
  "repositionPopover B popover button current w =
     (let (next, room) = getFootnotePosition B button popover w
      in if current \<noteq> next
         then
           (let w1 = removeClass popover (''is-'' @ position_name current) w;
                w2 = addClass popover (''is-'' @ position_name next) w1;
                transformX = js_mul (rnd B) (getLeftRelative B button w2) (Num 100);
                transformY = (if next = above then ''100%'' else ''0'');
                w3 = setStyle popover ''transformOrigin'' (Origin transformX transformY) w2
            in ((next, room), w3))
         else ((next, room), w))"

section \<open>Tree operations of the DOM\<close>

fun nodes :: "dom \<Rightarrow> node list" where
  "nodes (Elem n ks) = n # concat (map nodes ks)"

fun first_nonempty :: "'a list list \<Rightarrow> 'a list" where
  "first_nonempty [] = []"
| "first_nonempty (p # ps) = (if p = [] then first_nonempty ps else p)"

text \<open>The path from a node up to the root of the tree, the node first; empty when the
  node is not in the tree.\<close>

fun path_to :: "node \<Rightarrow> dom \<Rightarrow> node list" where
  "path_to n (Elem m ks) =
     (if m = n then [m]
      else (let below_m = first_nonempty (map (path_to n) ks)
            in if below_m = [] then [] else below_m @ [m]))"

fun subtrees :: "node \<Rightarrow> dom \<Rightarrow> dom list" where
  "subtrees n (Elem m ks) =
     (if m = n then [Elem m ks] else concat (map (subtrees n) ks))"

text \<open>Cuts the subtree rooted at a node out of a tree (the root itself stays).\<close>

fun detach :: "node \<Rightarrow> dom \<Rightarrow> dom" where
  "detach n (Elem m ks) = Elem m (map (detach n) (filter (\<lambda>k. nid k \<noteq> n) ks))"

text \<open>Puts a tree right after the child with the given identity.\<close>

fun insert_after :: "node \<Rightarrow> dom \<Rightarrow> dom \<Rightarrow> dom" where
  "insert_after r new (Elem m ks) =
     Elem m (concat (map (\<lambda>k. if nid k = r then [k, new] else [insert_after r new k]) ks))"

text \<open>The identities of the siblings that follow a node, for every child list that
  holds the node.\<close>

fun siblings_after :: "node \<Rightarrow> dom \<Rightarrow> node list list" where
  "siblings_after n (Elem m ks) =
     (if n \<in> set (map nid ks)
      then [map nid (tl (dropWhile (\<lambda>k. nid k \<noteq> n) ks))]
      else concat (map (siblings_after n) ks))"

definition trees :: "page \<Rightarrow> dom list" where
  "trees w = doc w # detached w"

definition inclusive_ancestors :: "page \<Rightarrow> node \<Rightarrow> node list" where
  "inclusive_ancestors w n =
     (let found = first_nonempty (map (path_to n) (trees w))
      in if found = [] then [n] else found)"

definition parentNode :: "page \<Rightarrow> node \<Rightarrow> node option" where
  "parentNode w n = (case inclusive_ancestors w n of _ # p # _ \<Rightarrow> Some p | _ \<Rightarrow> None)"

text \<open>A node the forest does not record is an element with no parent and no child.\<close>

definition find_node :: "page \<Rightarrow> node \<Rightarrow> dom" where
  "find_node w n =
     (case concat (map (subtrees n) (trees w)) of [] \<Rightarrow> Elem n [] | t # _ \<Rightarrow> t)"

definition first_of :: "'a list list \<Rightarrow> 'a option" where
  "first_of xss = (case xss of (s # _) # _ \<Rightarrow> Some s | _ \<Rightarrow> None)"

definition nextElementSibling :: "page \<Rightarrow> node \<Rightarrow> node option" where
  "nextElementSibling w n = first_of (concat (map (siblings_after n) (trees w)))"

text \<open>\<open>document.body.contains(n)\<close>\<close>

definition body_contains :: "page \<Rightarrow> node \<Rightarrow> bool" where
  "body_contains w n = (n \<in> set (nodes (doc w)))"

text \<open>\<open>n.remove()\<close>: nothing happens to a node that has no parent.\<close>

definition node_remove :: "node \<Rightarrow> page \<Rightarrow> page" where
  "node_remove n w =
     (case parentNode w n of
        None \<Rightarrow> w\<lparr>writes := writes w @ [RemoveNode n]\<rparr>
      | Some _ \<Rightarrow>
          w\<lparr>doc := detach n (doc w),
            detached := map (detach n) (detached w) @ [find_node w n],
            writes := writes w @ [RemoveNode n]\<rparr>)"

datatype error = HierarchyRequestError

text \<open>
  \<open>r.insertAdjacentElement('afterend', new)\<close>: returns null and inserts nothing when
  \<open>r\<close> has no parent; throws when \<open>new\<close> is an inclusive ancestor of that parent;
  otherwise \<open>new\<close> leaves the place it had and becomes the next sibling of \<open>r\<close>.
\<close>

definition insertAdjacentElement_afterend :: "node \<Rightarrow> node \<Rightarrow> page \<Rightarrow> error + page" where
  "insertAdjacentElement_afterend r new w =
     (case parentNode w r of
        None \<Rightarrow> Inr (w\<lparr>writes := writes w @ [InsertAfterend r new]\<rparr>)
      | Some q \<Rightarrow>
          if new \<in> set (inclusive_ancestors w q) then Inl HierarchyRequestError
          else if new = r then Inr (w\<lparr>writes := writes w @ [InsertAfterend r new]\<rparr>)
          else
            (let t = find_node w new;
                 move = (\<lambda>tr. insert_after r t (detach new tr))
             in Inr (w\<lparr>doc := move (doc w),
                       detached := map move (filter (\<lambda>tr. nid tr \<noteq> new) (detached w)),
                       writes := writes w @ [InsertAfterend r new]\<rparr>)))"

text \<open>\<open>el.querySelector('.' + className)\<close>: the first descendant in tree order.\<close>

definition querySelector_class :: "page \<Rightarrow> node \<Rightarrow> string \<Rightarrow> node option" where
  "querySelector_class w el className =
     find (\<lambda>n. className \<in> classes w n) (tl (nodes (find_node w el)))"

text \<open>\<open>n.closest('[' + attr + ']')\<close>: the nearest inclusive ancestor carrying the
  attribute.\<close>

definition closest :: "page \<Rightarrow> node \<Rightarrow> string \<Rightarrow> node option" where
  "closest w n attr = find (\<lambda>a. attrs w a attr \<noteq> None) (inclusive_ancestors w n)"

section \<open>layout.ts, continued\<close>

definition CLASS_TOOLTIP :: string where
  "CLASS_TOOLTIP = ''littlefoot__tooltip''"

definition repositionTooltip :: "browser \<Rightarrow> node \<Rightarrow> node \<Rightarrow> page \<Rightarrow> page" where
  "repositionTooltip B pop btn w =
     (case querySelector_class w pop CLASS_TOOLTIP of
        Some tooltip \<Rightarrow>
          setStyle tooltip ''left''
            (Percent (js_mul (rnd B) (getLeftRelative B btn w) (Num 100))) w
      | None \<Rightarrow> w)"

section \<open>footnote.ts\<close>

definition CLASS_ACTIVE :: string where
  "CLASS_ACTIVE = ''is-active''"

definition CLASS_CHANGING :: string where
  "CLASS_CHANGING = ''is-changing''"

definition CLASS_SCROLLABLE :: string where
  "CLASS_SCROLLABLE = ''is-scrollable''"

record FootnoteElements =
  id_str :: string
  host :: node
  button :: node
  popover :: node
  content :: node
  wrapper :: node

text \<open>The two variables that \<open>footnoteActions\<close> captures: \<open>maxHeight\<close> (initially 0)
  and \<open>position\<close> (initially \<open>above\<close>).\<close>

record captured =
  maxHeight :: jsnum
  position :: Position

definition initial_captured :: captured where
  "initial_captured = \<lparr>maxHeight = Num 0, position = above\<rparr>"

text \<open>An optional callback receives the popover and the button and may do anything to
  the page.\<close>

type_synonym callback = "node \<Rightarrow> node \<Rightarrow> page \<Rightarrow> page"

definition call_optional :: "callback option \<Rightarrow> node \<Rightarrow> node \<Rightarrow> page \<Rightarrow> page" where
  "call_optional cb p b w = (case cb of None \<Rightarrow> w | Some f \<Rightarrow> f p b w)"

definition isMounted :: "FootnoteElements \<Rightarrow> page \<Rightarrow> bool" where
  "isMounted e w = body_contains w (popover e)"

text \<open>A throw carries the state reached at the moment of the throw.\<close>

definition activate ::
  "browser \<Rightarrow> FootnoteElements \<Rightarrow> callback option \<Rightarrow> captured \<times> page
     \<Rightarrow> (error \<times> captured \<times> page) + (captured \<times> page)" where
  "activate B e onActivate sw =
     (let (s, w) = sw;
          w1 = setAttribute (button e) ''aria-expanded'' ''true'' w;
          w2 = addClass (button e) CLASS_CHANGING w1;
          w3 = addClass (button e) CLASS_ACTIVE w2
      in case insertAdjacentElement_afterend (button e) (popover e) w3 of
           Inl err \<Rightarrow> Inl (err, s, w3)
         | Inr w4 \<Rightarrow>
             (let w5 = setStyle (popover e) ''maxWidth''
                         (Px (Num (clientWidth (layout_of B w4) (nid (doc w4))))) w4;
                  s' = s\<lparr>maxHeight := getMaxHeight B (content e) w5\<rparr>
              in Inr (s', call_optional onActivate (popover e) (button e) w5)))"

definition dismiss :: "FootnoteElements \<Rightarrow> callback option \<Rightarrow> captured \<times> page \<Rightarrow> captured \<times> page" where
  "dismiss e onDismiss sw =
     (let (s, w) = sw;
          w1 = setAttribute (button e) ''aria-expanded'' ''false'' w;
          w2 = addClass (button e) CLASS_CHANGING w1;
          w3 = removeClass (button e) CLASS_ACTIVE w2;
          w4 = removeClass (popover e) CLASS_ACTIVE w3
      in (s, call_optional onDismiss (popover e) (button e) w4))"

definition isActive :: "FootnoteElements \<Rightarrow> page \<Rightarrow> bool" where
  "isActive e w = hasClass (button e) CLASS_ACTIVE w"

definition isReady :: "FootnoteElements \<Rightarrow> page \<Rightarrow> bool" where
  "isReady e w = (\<not> hasClass (button e) CLASS_CHANGING w)"

definition ready :: "FootnoteElements \<Rightarrow> captured \<times> page \<Rightarrow> captured \<times> page" where
  "ready e sw =
     (let (s, w) = sw;
          w1 = addClass (popover e) CLASS_ACTIVE w
      in (s, removeClass (button e) CLASS_CHANGING w1))"

definition remove_popover :: "FootnoteElements \<Rightarrow> captured \<times> page \<Rightarrow> captured \<times> page" where
  "remove_popover e sw =
     (let (s, w) = sw;
          w1 = node_remove (popover e) w
      in (s, removeClass (button e) CLASS_CHANGING w1))"

definition reposition :: "browser \<Rightarrow> FootnoteElements \<Rightarrow> captured \<times> page \<Rightarrow> captured \<times> page" where
  "reposition B e sw =
     (let (s, w) = sw
      in if isMounted e w
         then
           (let ((next, height), w1) = repositionPopover B (popover e) (button e) (position s) w;
                s1 = s\<lparr>position := next\<rparr>;
                w2 = setStyle (content e) ''maxHeight''
                       (Px (Math_min (maxHeight s1) height)) w1
            in if offsetHeight (layout_of B w2) (popover e)
                    < scrollHeight (layout_of B w2) (content e)
               then (s1, setAttribute (content e) ''tabindex'' ''0''
                           (addClass (popover e) CLASS_SCROLLABLE w2))
               else (s1, removeAttribute (content e) ''tabindex''
                           (removeClass (popover e) CLASS_SCROLLABLE w2)))
         else (s, w))"

definition resize :: "browser \<Rightarrow> FootnoteElements \<Rightarrow> captured \<times> page \<Rightarrow> captured \<times> page" where
  "resize B e sw =
     (let (s, w) = sw
      in if isMounted e w
         then
           (let w1 = setStyle (popover e) ''left''
                       (Px (getLeftInPixels B (content e) (button e) w)) w;
                w2 = setStyle (wrapper e) ''maxWidth''
                       (Px (Num (offsetWidth (layout_of B w1) (content e)))) w1
            in (s, repositionTooltip B (popover e) (button e) w2))
         else (s, w))"

definition destroy :: "FootnoteElements \<Rightarrow> captured \<times> page \<Rightarrow> captured \<times> page" where
  "destroy e sw = (let (s, w) = sw in (s, node_remove (host e) w))"

section \<open>scroll.ts\<close>





section \<open>The event layer (addListeners)\<close>

text \<open>The operations of the use-case registry; the layer only invokes them.\<close>

datatype action =
    Toggle string
  | Hover string
  | Unhover string
  | DismissAll
  | TouchOutside
  | RepositionAll
  | ResizeAll

record Event =
  etype :: string
  target :: node
  keyCode :: nat
  key :: string

text \<open>An attribute selector \<open>[a]\<close> is represented by the attribute name \<open>a\<close>.\<close>

definition SELECTOR_FOOTNOTE :: string where
  "SELECTOR_FOOTNOTE = ''data-footnote-id''"

definition closestTarget :: "page \<Rightarrow> Event \<Rightarrow> string \<Rightarrow> node option" where
  "closestTarget w event selector = closest w (target event) selector"

text \<open>\<open>element?.dataset.footnoteId\<close> reads the attribute \<open>data-footnote-id\<close>.\<close>

definition getFootnoteId :: "page \<Rightarrow> node option \<Rightarrow> string option" where
  "getFootnoteId w element =
     (case element of None \<Rightarrow> None | Some el \<Rightarrow> attrs w el ''data-footnote-id'')"

text \<open>The test \<open>if (id) ... else ...\<close>: undefined and the empty string are falsy.\<close>

definition if_truthy :: "string option \<Rightarrow> (string \<Rightarrow> 'a) \<Rightarrow> 'a \<Rightarrow> 'a" where
  "if_truthy i f g = (case i of None \<Rightarrow> g | Some s \<Rightarrow> if s = [] then g else f s)"

text \<open>A handler returns the registry actions it invoked, in order, and whether it called
  \<open>preventDefault\<close>.\<close>

definition hoverHandler :: "(string \<Rightarrow> action) \<Rightarrow> page \<Rightarrow> Event \<Rightarrow> action list \<times> bool" where
  "hoverHandler act w event =
     (let element = closestTarget w event SELECTOR_FOOTNOTE;
          i = getFootnoteId w element
      in if_truthy i (\<lambda>s. ([act s], True)) ([], True))"

definition delegate ::
  "string \<Rightarrow> (page \<Rightarrow> Event \<Rightarrow> action list \<times> bool) \<Rightarrow> page \<Rightarrow> Event \<Rightarrow> action list \<times> bool" where
  "delegate selector listener w event =
     (if closest w (target event) selector \<noteq> None then listener w event else ([], False))"

definition toggleOnTouch :: "page \<Rightarrow> Event \<Rightarrow> action list \<times> bool" where
  "toggleOnTouch w event =
     (let element = closestTarget w event ''data-footnote-button'';
          i = getFootnoteId w element
      in if_truthy i (\<lambda>s. ([Toggle s], True))
           (if closestTarget w event ''data-footnote-popover'' = None
            then ([TouchOutside], False)
            else ([], False)))"

definition dismissOnEscape :: "Event \<Rightarrow> action list \<times> bool" where
  "dismissOnEscape event =
     (if keyCode event = 27 \<or> key event = ''Escape'' \<or> key event = ''Esc''
      then ([DismissAll], False) else ([], False))"

text \<open>
  Modelled from the spec: the throttling primitive, \<open>throttle\<close> of the package
  @pacote/throttle, which the repository imports and does not contain. By the spec a
  call outside the window runs at once; a call inside the window schedules one
  trailing run at the end of the window, which keeps the arguments of the latest call
  and takes the place of the run scheduled before; the trailing run happens when its
  timer fires. Time is in milliseconds. A timer is its due time, a number that orders
  the timers by creation, and the arguments of the call it will make.
\<close>

record 'a throttled =
  lastRun :: "nat option"
  timer :: "(nat \<times> nat \<times> 'a) option"

definition throttle :: "'a throttled" where
  "throttle = \<lparr>lastRun = None, timer = None\<rparr>"

definition throttle_call :: "nat \<Rightarrow> nat \<Rightarrow> nat \<Rightarrow> 'a \<Rightarrow> 'a throttled \<Rightarrow> 'a throttled \<times> bool" where
  "throttle_call delay now tid args t =
     (case lastRun t of
        None \<Rightarrow> (\<lparr>lastRun = Some now, timer = None\<rparr>, True)
      | Some l \<Rightarrow>
          if now < l + delay then (t\<lparr>timer := Some (l + delay, tid, args)\<rparr>, False)
          else (\<lparr>lastRun = Some now, timer = None\<rparr>, True))"

text \<open>The timer fires if it is due: the result carries the arguments of the call made.\<close>

definition throttle_fire :: "nat \<Rightarrow> 'a throttled \<Rightarrow> 'a throttled \<times> 'a option" where
  "throttle_fire now t =
     (case timer t of
        None \<Rightarrow> (t, None)
      | Some (d, i, args) \<Rightarrow>
          if d \<le> now then (\<lparr>lastRun = Some d, timer = None\<rparr>, Some args) else (t, None))"

text \<open>
  What one call of \<open>addListeners\<close> creates: the abort controller's signal, shared by
  all eight registrations, and the two throttled functions. \<open>nextTimer\<close> numbers the
  timers in the order of their creation.
\<close>

record listeners =
  aborted :: bool
  throttledReposition :: "Event throttled"
  throttledResize :: "Event throttled"
  clock :: nat
  nextTimer :: nat

definition addListeners :: "nat \<Rightarrow> listeners" where
  "addListeners now =
     \<lparr>aborted = False, throttledReposition = throttle, throttledResize = throttle,
      clock = now, nextTimer = 0\<rparr>"

text \<open>The function that \<open>addListeners\<close> returns: \<open>controller.abort()\<close> and nothing else.\<close>

definition teardown :: "listeners \<Rightarrow> listeners" where
  "teardown l = l\<lparr>aborted := True\<rparr>"

text \<open>The browser delivers an event: a listener registered with an aborted signal is
  gone; otherwise the listener bound to the event type runs.\<close>

definition dispatch :: "page \<Rightarrow> Event \<Rightarrow> listeners \<Rightarrow> (action list \<times> bool) \<times> listeners" where
  "dispatch w event l =
     (if aborted l then (([], False), l)
      else if etype event = ''touchend'' \<or> etype event = ''click''
      then (toggleOnTouch w event, l)
      else if etype event = ''keyup''
      then (dismissOnEscape event, l)
      else if etype event = ''gestureend'' \<or> etype event = ''scroll''
      then (let (t, ran) = throttle_call 16 (clock l) (nextTimer l) event
                             (throttledReposition l)
            in ((if ran then [RepositionAll] else [], False),
                l\<lparr>throttledReposition := t,
                  nextTimer := (if ran then nextTimer l else Suc (nextTimer l))\<rparr>))
      else if etype event = ''resize''
      then (let (t, ran) = throttle_call 16 (clock l) (nextTimer l) event
                             (throttledResize l)
            in ((if ran then [ResizeAll] else [], False),
                l\<lparr>throttledResize := t,
                  nextTimer := (if ran then nextTimer l else Suc (nextTimer l))\<rparr>))
      else if etype event = ''mouseover''
      then (delegate SELECTOR_FOOTNOTE (hoverHandler Hover) w event, l)
      else if etype event = ''mouseout''
      then (delegate SELECTOR_FOOTNOTE (hoverHandler Unhover) w event, l)
      else (([], False), l))"

text \<open>The browser runs the timer that is due first; of two timers due at the same
  instant, the one created first.\<close>

definition fires_before :: "nat \<times> nat \<times> 'a \<Rightarrow> nat \<times> nat \<times> 'a \<Rightarrow> bool" where
  "fires_before a b =
     (fst a < fst b \<or> (fst a = fst b \<and> fst (snd a) < fst (snd b)))"

text \<open>Time passes: the timers that have come due fire, in that order. A timer belongs
  to its throttled function, not to the abort signal.\<close>

definition advance :: "nat \<Rightarrow> listeners \<Rightarrow> action list \<times> listeners" where
  "advance d l =
     (let now = clock l + d;
          (tr, ranR) = throttle_fire now (throttledReposition l);
          (tz, ranZ) = throttle_fire now (throttledResize l);
          resize_first = (case (timer (throttledResize l), timer (throttledReposition l)) of
                            (Some z, Some r) \<Rightarrow> fires_before z r | _ \<Rightarrow> False);
          acts = (if ranR \<noteq> None \<and> ranZ \<noteq> None
                  then (if resize_first then [ResizeAll, RepositionAll]
                        else [RepositionAll, ResizeAll])
                  else if ranR \<noteq> None then [RepositionAll]
                  else if ranZ \<noteq> None then [ResizeAll]
                  else [])
      in (acts, l\<lparr>throttledReposition := tr, throttledResize := tz, clock := now\<rparr>))"

datatype input = Dispatch Event | Advance nat | Teardown

fun step :: "page \<Rightarrow> input \<Rightarrow> listeners \<Rightarrow> action list \<times> listeners" where
  "step w (Dispatch event) l = (let ((acts, _), l') = dispatch w event l in (acts, l'))"
| "step w (Advance d) l = advance d l"
| "step w Teardown l = ([], teardown l)"

fun run :: "page \<Rightarrow> input list \<Rightarrow> listeners \<Rightarrow> action list \<times> listeners" where
  "run w [] l = ([], l)"
| "run w (i # is) l =
     (let (a, l1) = step w i l;
          (b, l2) = run w is l1
      in (a @ b, l2))"

subsection \<open>The wheel listener of a content region (scroll.ts)\<close>






section \<open>Sequences of calls on one footnote\<close>

datatype call =
    Activate "callback option"
  | Dismiss "callback option"
  | Ready
  | Remove
  | Reposition
  | Resize
  | Destroy

text \<open>A call that throws leaves the state it had reached; the next call starts there.\<close>

fun perform :: "browser \<Rightarrow> FootnoteElements \<Rightarrow> call \<Rightarrow> captured \<times> page \<Rightarrow> captured \<times> page" where
  "perform B e (Activate cb) sw =
     (case activate B e cb sw of Inl (err, sw') \<Rightarrow> sw' | Inr sw' \<Rightarrow> sw')"
| "perform B e (Dismiss cb) sw = dismiss e cb sw"
| "perform B e Ready sw = ready e sw"
| "perform B e Remove sw = remove_popover e sw"
| "perform B e Reposition sw = reposition B e sw"
| "perform B e Resize sw = resize B e sw"
| "perform B e Destroy sw = destroy e sw"

fun perform_all ::
  "browser \<Rightarrow> FootnoteElements \<Rightarrow> call list \<Rightarrow> captured \<times> page \<Rightarrow> captured \<times> page" where
  "perform_all B e [] sw = sw"
| "perform_all B e (c # cs) sw = perform_all B e cs (perform B e c sw)"

text \<open>What a call says about activation: \<open>activate\<close> switches on, \<open>dismiss\<close> off.\<close>

fun toggle_of :: "call \<Rightarrow> bool option" where
  "toggle_of (Activate cb) = Some True"
| "toggle_of (Dismiss cb) = Some False"
| "toggle_of c = None"

text \<open>The most recent \<open>activate\<close> or \<open>dismiss\<close> of a sequence, if there is one.\<close>

fun last_toggle :: "call list \<Rightarrow> bool option" where
  "last_toggle [] = None"
| "last_toggle (c # cs) =
     (case last_toggle cs of Some a \<Rightarrow> Some a | None \<Rightarrow> toggle_of c)"

text \<open>A caller's callback that leaves the \<open>is-active\<close> class of the button alone.\<close>

definition keeps_active :: "FootnoteElements \<Rightarrow> callback option \<Rightarrow> bool" where
  "keeps_active e cb =
     (\<forall>p b w. hasClass (button e) CLASS_ACTIVE (call_optional cb p b w)
              = hasClass (button e) CLASS_ACTIVE w)"

fun callback_of :: "call \<Rightarrow> callback option" where
  "callback_of (Activate cb) = cb"
| "callback_of (Dismiss cb) = cb"
| "callback_of c = None"

text \<open>The trailing calls that are scheduled and have not yet run.\<close>

definition pending_trailing :: "listeners \<Rightarrow> action list" where
  "pending_trailing l =
     (if timer (throttledReposition l) \<noteq> None then [RepositionAll] else [])
     @ (if timer (throttledResize l) \<noteq> None then [ResizeAll] else [])"

text \<open>
  The pages that \<open>createElements\<close> builds: an element that carries the attribute
  \<open>data-footnote-button\<close> also carries a non-empty \<open>data-footnote-id\<close>.
\<close>

definition buttons_identified :: "page \<Rightarrow> bool" where
  "buttons_identified w =
     (\<forall>n. attrs w n ''data-footnote-button'' \<noteq> None
          \<longrightarrow> (\<exists>i. attrs w n ''data-footnote-id'' = Some i \<and> i \<noteq> []))"

section \<open>The vertical placement, in the words of the specification\<close>

text \<open>
  The quantities are numbers of the language: required height is the popover's
  rendered height plus twice the margin, room above is the button's top plus half its
  height, room below is the viewport height minus room above.
\<close>

definition spec_required_height :: "rounding \<Rightarrow> jsnum \<Rightarrow> jsnum \<Rightarrow> jsnum" where
  "spec_required_height R popoverHeight margin =
     js_add R popoverHeight (js_mul R (Num 2) margin)"

definition spec_room_above :: "rounding \<Rightarrow> jsnum \<Rightarrow> jsnum \<Rightarrow> jsnum" where
  "spec_room_above R buttonTop buttonHeight =
     js_add R buttonTop (js_div R buttonHeight (Num 2))"

definition spec_room_below :: "rounding \<Rightarrow> jsnum \<Rightarrow> jsnum \<Rightarrow> jsnum \<Rightarrow> jsnum" where
  "spec_room_below R buttonTop buttonHeight viewportHeight =
     js_sub R viewportHeight (spec_room_above R buttonTop buttonHeight)"

definition spec_vertical_decision ::
  "rounding \<Rightarrow> jsnum \<Rightarrow> jsnum \<Rightarrow> jsnum \<Rightarrow> jsnum \<Rightarrow> jsnum \<Rightarrow> Position" where
  "spec_vertical_decision R buttonTop buttonHeight popoverHeight margin viewportHeight =
     (if js_ge (spec_room_below R buttonTop buttonHeight viewportHeight)
               (spec_required_height R popoverHeight margin)
         \<or> js_ge (spec_room_below R buttonTop buttonHeight viewportHeight)
                 (spec_room_above R buttonTop buttonHeight)
      then below else above)"

text \<open>The room of the chosen side.\<close>

definition spec_chosen_room ::
  "rounding \<Rightarrow> Position \<Rightarrow> jsnum \<Rightarrow> jsnum \<Rightarrow> jsnum \<Rightarrow> jsnum" where
  "spec_chosen_room R side buttonTop buttonHeight viewportHeight =
     (if side = below then spec_room_below R buttonTop buttonHeight viewportHeight
      else spec_room_above R buttonTop buttonHeight)"

text \<open>The available room: the room of the chosen side minus the margin minus 15 pixels.\<close>

definition spec_available_room :: "rounding \<Rightarrow> jsnum \<Rightarrow> jsnum \<Rightarrow> jsnum" where
  "spec_available_room R room margin = js_sub R (js_sub R room margin) (Num 15)"

section \<open>A small page to evaluate on\<close>

text \<open>
  The body (0) holds a host (1) with its button (2); the popover (3) with its wrapper
  (4) and content (5) is not yet in the document, as \<open>createElements\<close> leaves it.
\<close>

definition example_elements :: FootnoteElements where
  "example_elements =
     \<lparr>id_str = ''3'', host = 1, button = 2, popover = 3, content = 5, wrapper = 4\<rparr>"

definition example_page :: page where
  "example_page =
     \<lparr>doc = Elem 0 [Elem 1 [Elem 2 []]],
      detached = [Elem 3 [Elem 4 [Elem 5 []]]],
      classes = (\<lambda>n. {}),
      attrs = (\<lambda>n. if n = 2
                     then map_of [(''aria-expanded'', ''false''), (''data-footnote-button'', []),
                                  (''data-footnote-id'', ''3'')]
                     else if n = 3
                     then map_of [(''data-footnote-popover'', []), (''data-footnote-id'', ''3'')]
                     else Map.empty),
      styles = (\<lambda>n. Map.empty),
      writes = []\<rparr>"

text \<open>
  A layout with the button's top at \<open>y\<close>: the popover is 100 high, every other
  element 20; every computed length is \<open>10px\<close>; the viewport is 1024 by 600. On these
  values every operation of the code has a result that is a double.
\<close>

definition example_layout :: "real \<Rightarrow> layout" where
  "example_layout y =
     \<lparr>offsetHeight = (\<lambda>n. if n = 3 then 100 else 20),
      offsetWidth = (\<lambda>n. 40),
      clientHeight = (\<lambda>n. 200),
      clientWidth = (\<lambda>n. 800),
      scrollHeight = (\<lambda>n. 300),
      scrollTop = (\<lambda>n. 0),
      rectTop = (\<lambda>n. y),
      rectLeft = (\<lambda>n. 100),
      computedStyle = (\<lambda>n p. Dimension 10 ''px''),
      pixels = (\<lambda>s n. parseFloat round_to_double s),
      innerHeight = 600,
      innerWidth = 1024\<rparr>"

definition example_browser :: "real \<Rightarrow> browser" where
  "example_browser y = \<lparr>layout_of = (\<lambda>w. example_layout y), rnd = round_to_double\<rparr>"

text \<open>The same browser where the popover's computed top margin is \<open>10.5px\<close>.\<close>

definition example_browser_margin :: "real \<Rightarrow> browser" where
  "example_browser_margin y =
     \<lparr>layout_of = (\<lambda>w. (example_layout y)
         \<lparr>computedStyle := (\<lambda>n p. if n = 3 \<and> p = ''marginTop''
                                  then Dimension (21 / 2) ''px'' else Dimension 10 ''px'')\<rparr>),
      rnd = round_to_double\<rparr>"


text \<open>A caller's callback that marks its first argument, then its second.\<close>

definition example_callback :: callback where
  "example_callback p b w = setAttribute b ''data-second'' ''yes''
                              (setAttribute p ''data-first'' ''yes'' w)"

text \<open>The same page with the popover open: it is the next sibling of the button.\<close>

definition example_page_open :: page where
  "example_page_open =
     example_page\<lparr>doc := Elem 0 [Elem 1 [Elem 2 [], Elem 3 [Elem 4 [Elem 5 []]]]],
                  detached := []\<rparr>"

definition example_event :: "string \<Rightarrow> node \<Rightarrow> Event" where
  "example_event ty n = \<lparr>etype = ty, target = n, keyCode = 0, key = []\<rparr>"


text \<open>Two scroll events five milliseconds apart.\<close>

definition example_burst :: "input list" where
  "example_burst =
     [Dispatch (example_event ''scroll'' 0), Advance 5, Dispatch (example_event ''scroll'' 0)]"

section \<open>Facts about the tree operations\<close>

lemma nid_detach [simp]: "nid (detach n t) = nid t"
  by (cases t) simp

lemma nid_insert_after [simp]: "nid (insert_after r new t) = nid t"
  by (cases t) simp

lemma nid_in_nodes [simp]: "nid t \<in> set (nodes t)"
  by (cases t) simp

lemma nodes_detach_subset: "set (nodes (detach n t)) \<subseteq> set (nodes t)"
  by (induction t) auto

lemma not_in_nodes_detach: "nid t \<noteq> n \<Longrightarrow> n \<notin> set (nodes (detach n t))"
  by (induction t) auto

lemma detach_absent: "n \<notin> set (nodes t) \<Longrightarrow> detach n t = t"
proof (induction t)
  case (Elem m ks)
  have keep: "filter (\<lambda>k. nid k \<noteq> n) ks = ks"
    using Elem.prems by (auto simp: filter_id_conv)
  have "map (detach n) ks = ks"
    using Elem by (auto intro!: map_idI)
  with keep show ?case by simp
qed

lemma first_nonempty_empty_iff: "first_nonempty ps = [] \<longleftrightarrow> (\<forall>p\<in>set ps. p = [])"
  by (induction ps) auto

lemma first_nonempty_in: "first_nonempty ps \<noteq> [] \<Longrightarrow> first_nonempty ps \<in> set ps"
  by (induction ps) auto

lemma path_in_nodes: "set (path_to n t) \<subseteq> set (nodes t)"
proof (induction t)
  case (Elem m ks)
  show ?case
  proof (cases "m = n \<or> first_nonempty (map (path_to n) ks) = []")
    case True
    then show ?thesis by auto
  next
    case False
    then obtain k where "k \<in> set ks" "first_nonempty (map (path_to n) ks) = path_to n k"
      using first_nonempty_in [of "map (path_to n) ks"] by auto
    with False Elem.IH [of k] show ?thesis
      by (auto simp: Let_def)
  qed
qed

lemma path_nonempty_iff: "path_to n t \<noteq> [] \<longleftrightarrow> n \<in> set (nodes t)"
proof (induction t)
  case (Elem m ks)
  show ?case
  proof (cases "m = n")
    case True
    then show ?thesis by simp
  next
    case False
    have "first_nonempty (map (path_to n) ks) \<noteq> [] \<longleftrightarrow> (\<exists>k\<in>set ks. n \<in> set (nodes k))"
      using Elem.IH by (auto simp: first_nonempty_empty_iff)
    with False show ?thesis
      by (auto simp: Let_def)
  qed
qed

lemma path_hd_last:
  "path_to n t \<noteq> [] \<Longrightarrow> hd (path_to n t) = n \<and> last (path_to n t) = nid t"
proof (induction t)
  case (Elem m ks)
  show ?case
  proof (cases "m = n")
    case True
    then show ?thesis by simp
  next
    case False
    with Elem.prems have ne: "first_nonempty (map (path_to n) ks) \<noteq> []"
      by (auto simp: Let_def split: if_splits)
    then obtain k where k: "k \<in> set ks" "first_nonempty (map (path_to n) ks) = path_to n k"
      using first_nonempty_in [of "map (path_to n) ks"] by auto
    with ne Elem.IH [of k] have "hd (path_to n k) = n" by simp
    with False ne k show ?thesis
      by (auto simp: Let_def)
  qed
qed

lemma path_detach_self: "path_to n (detach n t) = (if nid t = n then [n] else [])"
proof (cases "nid t = n")
  case True
  then show ?thesis by (cases t) simp
next
  case False
  then have "n \<notin> set (nodes (detach n t))" by (rule not_in_nodes_detach)
  then have "path_to n (detach n t) = []" using path_nonempty_iff by blast
  with False show ?thesis by simp
qed

lemma subtrees_root: "s \<in> set (subtrees n t) \<Longrightarrow> nid s = n"
  by (induction t) (auto split: if_splits)

lemma subtrees_nonempty_iff: "subtrees n t \<noteq> [] \<longleftrightarrow> n \<in> set (nodes t)"
  by (induction t) auto

lemma first_path_detach:
  assumes ih: "\<And>k. k \<in> set ks \<Longrightarrow> p \<notin> set (path_to b k)
                 \<Longrightarrow> path_to b (detach p k) = path_to b k"
    and "p \<notin> set (first_nonempty (map (path_to b) ks))"
  shows "first_nonempty (map (path_to b) (map (detach p) (filter (\<lambda>k. nid k \<noteq> p) ks)))
         = first_nonempty (map (path_to b) ks)"
  using assms
proof (induction ks)
  case Nil
  then show ?case by simp
next
  case (Cons k ks)
  show ?case
  proof (cases "path_to b k = []")
    case True
    then have "b \<notin> set (nodes k)" using path_nonempty_iff by blast
    then have "b \<notin> set (nodes (detach p k))" using nodes_detach_subset by blast
    then have "path_to b (detach p k) = []" using path_nonempty_iff by blast
    with True Cons show ?thesis by simp
  next
    case False
    then have first: "first_nonempty (map (path_to b) (k # ks)) = path_to b k" by simp
    with Cons.prems(2) have notin: "p \<notin> set (path_to b k)" by simp
    from False have "last (path_to b k) = nid k" by (simp add: path_hd_last)
    with False notin have "nid k \<noteq> p" using last_in_set by metis
    moreover have "path_to b (detach p k) = path_to b k"
      using Cons.prems(1) notin by simp
    ultimately show ?thesis using False by simp
  qed
qed

lemma path_detach_same: "p \<notin> set (path_to b t) \<Longrightarrow> path_to b (detach p t) = path_to b t"
proof (induction t)
  case (Elem m ks)
  show ?case
  proof (cases "m = b")
    case True
    then show ?thesis by simp
  next
    case False
    from Elem.prems False have "p \<notin> set (first_nonempty (map (path_to b) ks))"
      by (auto simp: Let_def split: if_splits)
    then have "first_nonempty (map (path_to b) (map (detach p) (filter (\<lambda>k. nid k \<noteq> p) ks)))
         = first_nonempty (map (path_to b) ks)"
      using Elem.IH by (intro first_path_detach) auto
    with False show ?thesis by (simp add: Let_def)
  qed
qed

lemma siblings_nonempty:
  "r \<in> set (nodes t) \<Longrightarrow> r \<noteq> nid t \<Longrightarrow> siblings_after r t \<noteq> []"
proof (induction t)
  case (Elem m ks)
  show ?case
  proof (cases "r \<in> set (map nid ks)")
    case True
    then show ?thesis by simp
  next
    case False
    from Elem.prems obtain k where k: "k \<in> set ks" "r \<in> set (nodes k)" by auto
    with False have "r \<noteq> nid k" by auto
    with k Elem.IH [of k] have "siblings_after r k \<noteq> []" by simp
    with k False show ?thesis by auto
  qed
qed

lemma nodes_insert_after:
  "nodes (insert_after r new (Elem m ks)) =
     m # concat (map (\<lambda>k. if nid k = r then nodes k @ nodes new
                            else nodes (insert_after r new k)) ks)"
  by (induction ks) simp_all

lemma in_concat_mapI: "k \<in> set ks \<Longrightarrow> x \<in> set (f k) \<Longrightarrow> x \<in> set (concat (map f ks))"
  by (induction ks) auto

lemma in_concat_mapE:
  "x \<in> set (concat (map f ks)) \<Longrightarrow> \<exists>k. k \<in> set ks \<and> x \<in> set (f k)"
  by (induction ks) auto

lemma nodes_insert_mono: "set (nodes t) \<subseteq> set (nodes (insert_after r new t))"
proof (induction t)
  case (Elem m ks)
  show ?case
  proof
    fix x assume "x \<in> set (nodes (Elem m ks))"
    then consider "x = m" | "x \<in> set (concat (map nodes ks))" by auto
    then show "x \<in> set (nodes (insert_after r new (Elem m ks)))"
    proof cases
      case 1
      then show ?thesis by simp
    next
      case 2
      then obtain k where k: "k \<in> set ks" "x \<in> set (nodes k)"
        using in_concat_mapE [of x nodes ks] by blast
      with Elem.IH have "x \<in> set (nodes (insert_after r new k))" by blast
      with k have "x \<in> set (if nid k = r then nodes k @ nodes new
                            else nodes (insert_after r new k))" by simp
      with k(1) have "x \<in> set (concat (map (\<lambda>k. if nid k = r then nodes k @ nodes new
                            else nodes (insert_after r new k)) ks))"
        by (rule in_concat_mapI)
      then show ?thesis by (simp only: nodes_insert_after set_simps insert_iff) simp
    qed
  qed
qed

lemma path_root: "path_to (nid t) t = [nid t]"
  by (cases t) simp

lemma first_of_append: "xss \<noteq> [] \<Longrightarrow> first_of (xss @ yss) = first_of xss"
  by (cases xss) (simp_all add: first_of_def)

lemma first_of_concat:
  assumes "\<And>x. x \<in> set xs \<Longrightarrow> g x = [] \<or> first_of (g x) = Some a"
  shows "concat (map g xs) = [] \<or> first_of (concat (map g xs)) = Some a"
  using assms
proof (induction xs)
  case Nil
  then show ?case by simp
next
  case (Cons x xs)
  show ?case
  proof (cases "g x = []")
    case True
    with Cons show ?thesis by simp
  next
    case False
    with Cons.prems have "first_of (g x) = Some a" by auto
    with False show ?thesis by (simp add: first_of_append)
  qed
qed

lemma insert_kids_nids:
  assumes "nid new \<noteq> r"
  shows "r \<in> set (map nid (concat (map (\<lambda>k. if nid k = r then [k, new]
                                             else [insert_after r new k]) ks)))
         \<longleftrightarrow> r \<in> set (map nid ks)"
  using assms by (induction ks) auto

lemma insert_kids_next:
  assumes "r \<in> set (map nid ks)"
  shows "\<exists>more. tl (dropWhile (\<lambda>k. nid k \<noteq> r)
           (concat (map (\<lambda>k. if nid k = r then [k, new] else [insert_after r new k]) ks)))
         = new # more"
  using assms by (induction ks) auto

lemma insert_kids_plain:
  assumes "r \<notin> set (map nid ks)"
  shows "concat (map (\<lambda>k. if nid k = r then [k, new] else [insert_after r new k]) ks)
         = map (insert_after r new) ks"
  using assms by (induction ks) auto

lemma siblings_after_insert:
  assumes "nid new \<noteq> r"
  shows "siblings_after r (insert_after r new t) = []
         \<or> first_of (siblings_after r (insert_after r new t)) = Some (nid new)"
proof (induction t)
  case (Elem m ks)
  let ?kids = "concat (map (\<lambda>k. if nid k = r then [k, new] else [insert_after r new k]) ks)"
  show ?case
  proof (cases "r \<in> set (map nid ks)")
    case True
    then obtain more where "tl (dropWhile (\<lambda>k. nid k \<noteq> r) ?kids) = new # more"
      using insert_kids_next by blast
    moreover from True have "r \<in> set (map nid ?kids)"
      using insert_kids_nids [OF assms] by blast
    ultimately have "siblings_after r (Elem m ?kids) = [nid new # map nid more]"
      by (simp del: set_map set_concat)
    then show ?thesis by (simp add: first_of_def)
  next
    case False
    then have plain: "?kids = map (insert_after r new) ks" by (rule insert_kids_plain)
    from False have "r \<notin> set (map nid ?kids)"
      using insert_kids_nids [OF assms] by blast
    then have "siblings_after r (Elem m ?kids)
               = concat (map (\<lambda>k. siblings_after r (insert_after r new k)) ks)"
      unfolding siblings_after.simps plain by (simp add: comp_def)
    moreover have "concat (map (\<lambda>k. siblings_after r (insert_after r new k)) ks) = []
       \<or> first_of (concat (map (\<lambda>k. siblings_after r (insert_after r new k)) ks))
           = Some (nid new)"
      using Elem.IH by (rule first_of_concat)
    ultimately show ?thesis by simp
  qed
qed

lemma subtrees_self: "subtrees (nid t) t = [t]"
  by (cases t) simp

lemma subtrees_absent: "p \<notin> set (nodes t) \<Longrightarrow> subtrees p t = []"
  using subtrees_nonempty_iff by blast

lemma subtrees_insert:
  assumes "nid new \<notin> set (nodes D)"
  shows "set (subtrees (nid new) (insert_after r new D)) \<subseteq> {new}"
  using assms
proof (induction D)
  case (Elem m ks)
  from Elem.prems have m: "m \<noteq> nid new" by simp
  have "s = new"
    if s: "s \<in> set (concat (map (subtrees (nid new))
             (concat (map (\<lambda>k. if nid k = r then [k, new] else [insert_after r new k]) ks))))"
    for s
  proof -
    from s obtain c where c: "c \<in> set (concat (map (\<lambda>k. if nid k = r then [k, new]
                                 else [insert_after r new k]) ks))"
      "s \<in> set (subtrees (nid new) c)"
      using in_concat_mapE [of s "subtrees (nid new)"] by blast
    from c(1) obtain k where k: "k \<in> set ks"
      "c \<in> set (if nid k = r then [k, new] else [insert_after r new k])"
      using in_concat_mapE [of c "\<lambda>k. if nid k = r then [k, new] else [insert_after r new k]" ks]
      by blast
    from k(1) Elem.prems have absent: "nid new \<notin> set (nodes k)" by auto
    have "c = k \<or> c = new \<or> c = insert_after r new k"
    proof (cases "nid k = r")
      case True
      with k(2) show ?thesis by auto
    next
      case False
      with k(2) show ?thesis by auto
    qed
    then consider "c = k" | "c = new" | "c = insert_after r new k" by blast
    then show ?thesis
    proof cases
      case 1
      with absent c(2) show ?thesis by (simp add: subtrees_absent)
    next
      case 2
      with c(2) show ?thesis by (simp add: subtrees_self)
    next
      case 3
      with Elem.IH [OF k(1)] absent c(2) show ?thesis by auto
    qed
  qed
  note inner = this
  have eq: "subtrees (nid new) (insert_after r new (Elem m ks))
        = concat (map (subtrees (nid new))
             (concat (map (\<lambda>k. if nid k = r then [k, new] else [insert_after r new k]) ks)))"
    using m by simp
  show ?case
  proof
    fix s assume "s \<in> set (subtrees (nid new) (insert_after r new (Elem m ks)))"
    then have "s = new" unfolding eq by (rule inner)
    then show "s \<in> {new}" by simp
  qed
qed

lemma nodes_insert_new:
  "r \<in> set (nodes D) \<Longrightarrow> r \<noteq> nid D \<Longrightarrow> set (nodes new) \<subseteq> set (nodes (insert_after r new D))"
proof (induction D)
  case (Elem m ks)
  from Elem.prems obtain k where k: "k \<in> set ks" "r \<in> set (nodes k)"
    using in_concat_mapE [of r nodes ks] by auto
  show ?case
  proof
    fix x assume x: "x \<in> set (nodes new)"
    have "x \<in> set (if nid k = r then nodes k @ nodes new else nodes (insert_after r new k))"
    proof (cases "nid k = r")
      case True
      with x show ?thesis by simp
    next
      case False
      with Elem.IH [OF k] x show ?thesis by auto
    qed
    with k(1) have "x \<in> set (concat (map (\<lambda>k. if nid k = r then nodes k @ nodes new
                            else nodes (insert_after r new k)) ks))"
      by (rule in_concat_mapI)
    then show "x \<in> set (nodes (insert_after r new (Elem m ks)))"
      by (simp only: nodes_insert_after set_simps insert_iff) simp
  qed
qed

subsection \<open>Pages\<close>


lemma trees_addClass [simp]: "trees (addClass n c w) = trees w"
  by (simp add: trees_def addClass_def)

lemma trees_removeClass [simp]: "trees (removeClass n c w) = trees w"
  by (simp add: trees_def removeClass_def)

lemma trees_setAttribute [simp]: "trees (setAttribute n a v w) = trees w"
  by (simp add: trees_def setAttribute_def)

lemma trees_removeAttribute [simp]: "trees (removeAttribute n a w) = trees w"
  by (simp add: trees_def removeAttribute_def)

lemma trees_setStyle [simp]: "trees (setStyle n a v w) = trees w"
  by (simp add: trees_def setStyle_def)

lemma same_trees:
  assumes "trees w' = trees w"
  shows "inclusive_ancestors w' = inclusive_ancestors w"
    and "parentNode w' = parentNode w"
    and "find_node w' = find_node w"
    and "nextElementSibling w' = nextElementSibling w"
    and "body_contains w' = body_contains w"
proof -
  show a: "inclusive_ancestors w' = inclusive_ancestors w"
    using assms by (simp add: inclusive_ancestors_def fun_eq_iff)
  show "parentNode w' = parentNode w"
    using a by (simp add: parentNode_def fun_eq_iff)
  show "find_node w' = find_node w"
    using assms by (simp add: find_node_def fun_eq_iff)
  show "nextElementSibling w' = nextElementSibling w"
    using assms by (simp add: nextElementSibling_def fun_eq_iff)
  from assms have "doc w' = doc w" by (simp add: trees_def)
  then show "body_contains w' = body_contains w"
    by (simp add: body_contains_def fun_eq_iff)
qed

lemma nid_find_node [simp]: "nid (find_node w n) = n"
proof (cases "concat (map (subtrees n) (trees w))")
  case Nil
  show ?thesis unfolding find_node_def Nil by simp
next
  case (Cons t ts)
  then have "t \<in> set (concat (map (subtrees n) (trees w)))" by simp
  then obtain tr where "tr \<in> set (trees w)" "t \<in> set (subtrees n tr)"
    using in_concat_mapE [of t "subtrees n" "trees w"] by blast
  then have "nid t = n" using subtrees_root by blast
  then show ?thesis unfolding find_node_def Cons by simp
qed

lemma first_nonempty_all:
  "(\<And>x. x \<in> set xs \<Longrightarrow> x = [] \<or> x = a) \<Longrightarrow> first_nonempty xs = [] \<or> first_nonempty xs = a"
  by (induction xs) auto

lemma in_doc_ancestors:
  "n \<in> set (nodes (doc w)) \<Longrightarrow> inclusive_ancestors w n = path_to n (doc w)"
proof -
  assume "n \<in> set (nodes (doc w))"
  then have "path_to n (doc w) \<noteq> []" using path_nonempty_iff by blast
  then show ?thesis by (simp add: inclusive_ancestors_def trees_def Let_def)
qed

lemma ancestors_shape:
  "\<exists>rest. inclusive_ancestors w n = n # rest"
proof (cases "first_nonempty (map (path_to n) (trees w)) = []")
  case True
  then show ?thesis by (simp add: inclusive_ancestors_def)
next
  case False
  then have "first_nonempty (map (path_to n) (trees w)) \<in> set (map (path_to n) (trees w))"
    by (rule first_nonempty_in)
  then obtain tr where tr: "first_nonempty (map (path_to n) (trees w)) = path_to n tr" by auto
  with False have "hd (path_to n tr) = n" by (simp add: path_hd_last)
  with False tr have "\<exists>rest. path_to n tr = n # rest" by (cases "path_to n tr") auto
  with False tr show ?thesis by (simp add: inclusive_ancestors_def Let_def)
qed

lemma parent_in_doc:
  assumes "n \<in> set (nodes (doc w))" and "n \<noteq> nid (doc w)"
  shows "\<exists>q rest. inclusive_ancestors w n = n # q # rest \<and> parentNode w n = Some q
           \<and> q \<in> set (nodes (doc w))"
proof -
  from assms(1) have anc: "inclusive_ancestors w n = path_to n (doc w)"
    by (rule in_doc_ancestors)
  from assms(1) have ne: "path_to n (doc w) \<noteq> []" using path_nonempty_iff by blast
  then have hl: "hd (path_to n (doc w)) = n" "last (path_to n (doc w)) = nid (doc w)"
    by (simp_all add: path_hd_last)
  obtain x xs where xs: "path_to n (doc w) = x # xs" using ne by (cases "path_to n (doc w)") auto
  with hl have x: "x = n" by simp
  from xs hl(2) assms(2) x have "xs \<noteq> []" by auto
  then obtain q rest where q: "xs = q # rest" by (cases xs) auto
  have "q \<in> set (path_to n (doc w))" using xs q by simp
  then have "q \<in> set (nodes (doc w))" using path_in_nodes by blast
  with anc xs x q show ?thesis by (simp add: parentNode_def)
qed

lemma parent_None_absent:
  assumes "parentNode w p = None" and "p \<noteq> nid (doc w)"
  shows "p \<notin> set (nodes (doc w))"
proof
  assume "p \<in> set (nodes (doc w))"
  with assms(2) obtain q where "parentNode w p = Some q" using parent_in_doc by blast
  with assms(1) show False by simp
qed

lemma doc_after_remove:
  assumes "p \<noteq> nid (doc w)"
  shows "doc (node_remove p w) = detach p (doc w)"
proof (cases "parentNode w p")
  case None
  from None assms have "p \<notin> set (nodes (doc w))" by (rule parent_None_absent)
  then have "detach p (doc w) = doc w" by (rule detach_absent)
  with None show ?thesis by (simp add: node_remove_def)
next
  case (Some q)
  then show ?thesis by (simp add: node_remove_def)
qed

lemma body_after_remove:
  assumes "p \<noteq> nid (doc w)"
  shows "\<not> body_contains (node_remove p w) p"
proof -
  from assms have "p \<notin> set (nodes (detach p (doc w)))" by (simp add: not_in_nodes_detach)
  with assms show ?thesis by (simp add: body_contains_def doc_after_remove)
qed

lemma parentNode_after_remove: "parentNode (node_remove p w) p = None"
proof (cases "parentNode w p")
  case None
  have "trees (node_remove p w) = trees w"
    using None by (simp add: node_remove_def trees_def)
  then have "parentNode (node_remove p w) = parentNode w" by (rule same_trees)
  with None show ?thesis by simp
next
  case (Some q)
  then have tr: "trees (node_remove p w)
      = detach p (doc w) # map (detach p) (detached w) @ [find_node w p]"
    by (simp add: node_remove_def trees_def)
  have "x = [] \<or> x = [p]" if "x \<in> set (map (path_to p) (trees (node_remove p w)))" for x
  proof -
    from that consider tr' where "x = path_to p (detach p tr')" | "x = path_to p (find_node w p)"
      unfolding tr by auto
    then show ?thesis
    proof cases
      case 1
      then show ?thesis by (simp add: path_detach_self)
    next
      case 2
      then show ?thesis using path_root [of "find_node w p"] by simp
    qed
  qed
  then have "first_nonempty (map (path_to p) (trees (node_remove p w))) = []
             \<or> first_nonempty (map (path_to p) (trees (node_remove p w))) = [p]"
    by (rule first_nonempty_all)
  then have "inclusive_ancestors (node_remove p w) p = [p]"
    by (auto simp add: inclusive_ancestors_def Let_def)
  then show ?thesis by (simp add: parentNode_def)
qed

lemma node_remove_stores:
  "classes (node_remove p w) = classes w"
  "attrs (node_remove p w) = attrs w"
  "styles (node_remove p w) = styles w"
  "writes (node_remove p w) = writes w @ [RemoveNode p]"
  by (simp_all add: node_remove_def split: option.splits)

lemma node_remove_noop:
  "parentNode w p = None \<Longrightarrow> node_remove p w = w\<lparr>writes := writes w @ [RemoveNode p]\<rparr>"
  by (simp add: node_remove_def)

subsection \<open>Insertion after an element\<close>


lemma insert_afterend_ok:
  assumes par: "parentNode w b = Some q"
    and anc_q: "p \<notin> set (inclusive_ancestors w q)"
    and anc_b: "p \<notin> set (inclusive_ancestors w b)"
    and body: "p \<noteq> nid (doc w)"
  shows "\<exists>w'. insertAdjacentElement_afterend b p w = Inr w'
           \<and> nextElementSibling w' b = Some p
           \<and> find_node w' p = find_node w p
           \<and> (body_contains w b \<longrightarrow> body_contains w' p)
           \<and> classes w' = classes w \<and> attrs w' = attrs w \<and> styles w' = styles w
           \<and> writes w' = writes w @ [InsertAfterend b p]"
proof -
  define t where "t = find_node w p"
  define move where "move = (\<lambda>tr. insert_after b t (detach p tr))"
  define Ts where "Ts = doc w # filter (\<lambda>tr. nid tr \<noteq> p) (detached w)"
  define w' where "w' = w\<lparr>doc := move (doc w),
                       detached := map move (filter (\<lambda>tr. nid tr \<noteq> p) (detached w)),
                       writes := writes w @ [InsertAfterend b p]\<rparr>"
  have nt: "nid t = p" by (simp add: t_def)
  obtain rest0 where shape: "inclusive_ancestors w b = b # rest0"
    using ancestors_shape by blast
  with anc_b have pb: "p \<noteq> b" by auto
  have res: "insertAdjacentElement_afterend b p w = Inr w'"
    using par anc_q pb
    by (simp add: insertAdjacentElement_afterend_def w'_def move_def t_def Let_def)
  have trees': "trees w' = map move Ts"
    by (simp add: trees_def w'_def Ts_def)
  \<comment> \<open>the tree that holds the button\<close>
  from par shape obtain rest where anc: "inclusive_ancestors w b = b # q # rest"
    by (auto simp add: parentNode_def split: list.splits)
  then have ne: "first_nonempty (map (path_to b) (trees w)) \<noteq> []"
    by (auto simp add: inclusive_ancestors_def Let_def split: if_splits)
  then have "first_nonempty (map (path_to b) (trees w)) \<in> set (map (path_to b) (trees w))"
    by (rule first_nonempty_in)
  then obtain T where T: "T \<in> set (trees w)"
    "first_nonempty (map (path_to b) (trees w)) = path_to b T" by auto
  with ne have pT: "path_to b T = b # q # rest"
    using anc by (simp add: inclusive_ancestors_def Let_def)
  then have "last (path_to b T) = nid T" using path_hd_last [of b T] by simp
  with pT have "nid T \<in> set (path_to b T)" using last_in_set [of "path_to b T"] by simp
  with anc_b anc pT have nidT: "nid T \<noteq> p" by auto
  with T(1) have TTs: "T \<in> set Ts" by (auto simp add: trees_def Ts_def)
  have "b \<noteq> nid T"
  proof
    assume "b = nid T"
    then have "path_to b T = [b]" using path_root [of T] by simp
    with pT show False by simp
  qed
  moreover have "path_to b (detach p T) = path_to b T"
    using anc_b anc pT by (intro path_detach_same) simp
  then have "b \<in> set (nodes (detach p T))"
    using pT path_nonempty_iff [of b "detach p T"] by simp
  ultimately have inT: "b \<in> set (nodes (detach p T))" "b \<noteq> nid (detach p T)" by simp_all
  \<comment> \<open>the next sibling\<close>
  have "siblings_after b (move tr) = [] \<or> first_of (siblings_after b (move tr)) = Some p" for tr
    using siblings_after_insert [of t b "detach p tr"] pb nt by (simp add: move_def)
  then have "concat (map (\<lambda>tr. siblings_after b (move tr)) Ts) = []
      \<or> first_of (concat (map (\<lambda>tr. siblings_after b (move tr)) Ts)) = Some p"
    by (intro first_of_concat) simp
  moreover have "siblings_after b (move T) \<noteq> []"
  proof -
    have "b \<in> set (nodes (move T))"
      using inT(1) nodes_insert_mono [of "detach p T" b t] by (auto simp add: move_def)
    moreover have "b \<noteq> nid (move T)" using inT(2) by (simp add: move_def)
    ultimately show ?thesis by (rule siblings_nonempty)
  qed
  then have "concat (map (\<lambda>tr. siblings_after b (move tr)) Ts) \<noteq> []"
    using TTs by auto
  ultimately have "first_of (concat (map (\<lambda>tr. siblings_after b (move tr)) Ts)) = Some p"
    by blast
  then have sib: "nextElementSibling w' b = Some p"
    by (simp add: nextElementSibling_def trees' comp_def)
  \<comment> \<open>the inserted subtree is the one that was found\<close>
  have pin: "set (nodes t) \<subseteq> set (nodes (move T))"
    unfolding move_def using inT by (rule nodes_insert_new)
  have only: "s = t" if "s \<in> set (concat (map (\<lambda>tr. subtrees p (move tr)) Ts))" for s
  proof -
    from that obtain tr where tr: "tr \<in> set Ts" "s \<in> set (subtrees p (move tr))"
      using in_concat_mapE [of s "\<lambda>tr. subtrees p (move tr)" Ts] by blast
    from tr(1) body have "nid tr \<noteq> p" by (auto simp add: Ts_def)
    then have "nid t \<notin> set (nodes (detach p tr))" using nt by (simp add: not_in_nodes_detach)
    then have "set (subtrees (nid t) (insert_after b t (detach p tr))) \<subseteq> {t}"
      by (rule subtrees_insert)
    with tr(2) show ?thesis by (auto simp add: move_def nt)
  qed
  have "p \<in> set (nodes (move T))" using pin nt nid_in_nodes [of t] by auto
  then have "subtrees p (move T) \<noteq> []" using subtrees_nonempty_iff by blast
  then have "concat (map (\<lambda>tr. subtrees p (move tr)) Ts) \<noteq> []" using TTs by auto
  then obtain s ss where ss: "concat (map (\<lambda>tr. subtrees p (move tr)) Ts) = s # ss"
    by (cases "concat (map (\<lambda>tr. subtrees p (move tr)) Ts)") auto
  then have "s = t" using only [of s] by simp
  then have found: "find_node w' p = find_node w p"
    unfolding find_node_def [of w' p] trees' using ss by (simp add: comp_def t_def)
  \<comment> \<open>into the document\<close>
  have inbody: "body_contains w' p" if "body_contains w b"
  proof -
    from that have "b \<in> set (nodes (doc w))" by (simp add: body_contains_def)
    then have "inclusive_ancestors w b = path_to b (doc w)" by (rule in_doc_ancestors)
    with anc have pd: "path_to b (doc w) = b # q # rest" by simp
    have "b \<noteq> nid (doc w)"
    proof
      assume "b = nid (doc w)"
      then have "path_to b (doc w) = [b]" using path_root [of "doc w"] by simp
      with pd show False by simp
    qed
    moreover have "path_to b (detach p (doc w)) = path_to b (doc w)"
      using anc_b anc pd by (intro path_detach_same) simp
    then have "b \<in> set (nodes (detach p (doc w)))"
      using pd path_nonempty_iff [of b "detach p (doc w)"] by simp
    ultimately have "set (nodes t) \<subseteq> set (nodes (move (doc w)))"
      unfolding move_def by (intro nodes_insert_new) simp_all
    then have "p \<in> set (nodes (move (doc w)))" using nt nid_in_nodes [of t] by auto
    then show ?thesis by (simp add: body_contains_def w'_def)
  qed
  have stores: "classes w' = classes w" "attrs w' = attrs w" "styles w' = styles w"
    "writes w' = writes w @ [InsertAfterend b p]"
    by (simp_all add: w'_def)
  show ?thesis
    using res sib found inbody stores by blast
qed

subsection \<open>Activation\<close>


lemma activate_ok:
  assumes "parentNode w (button e) = Some q"
    and "popover e \<notin> set (inclusive_ancestors w q)"
    and "popover e \<notin> set (inclusive_ancestors w (button e))"
    and "popover e \<noteq> nid (doc w)"
  shows "\<exists>w4 w5.
           activate B e onActivate (s, w)
             = Inr (s\<lparr>maxHeight := getMaxHeight B (content e) w5\<rparr>,
                    call_optional onActivate (popover e) (button e) w5)
           \<and> w5 = setStyle (popover e) ''maxWidth''
                     (Px (Num (clientWidth (layout_of B w4) (nid (doc w))))) w4
           \<and> writes w4 = writes w @
                [SetAttribute (button e) ''aria-expanded'' ''true'',
                 ClassAdd (button e) CLASS_CHANGING,
                 ClassAdd (button e) CLASS_ACTIVE,
                 InsertAfterend (button e) (popover e)]
           \<and> attrs w4 = (attrs w)(button e := (attrs w (button e))(''aria-expanded'' \<mapsto> ''true''))
           \<and> classes w4 = (classes w)(button e :=
                 insert CLASS_ACTIVE (insert CLASS_CHANGING (classes w (button e))))
           \<and> styles w4 = styles w
           \<and> nextElementSibling w5 (button e) = Some (popover e)
           \<and> find_node w5 (popover e) = find_node w (popover e)
           \<and> (body_contains w (button e) \<longrightarrow> isMounted e w5)"
proof -
  define w3 where "w3 = addClass (button e) CLASS_ACTIVE
      (addClass (button e) CLASS_CHANGING
         (setAttribute (button e) ''aria-expanded'' ''true'' w))"
  have tr: "trees w3 = trees w" by (simp add: w3_def)
  have doc3: "doc w3 = doc w"
    by (simp add: w3_def addClass_def setAttribute_def)
  note st = same_trees [OF tr]
  obtain w4 where w4: "insertAdjacentElement_afterend (button e) (popover e) w3 = Inr w4"
    "nextElementSibling w4 (button e) = Some (popover e)"
    "find_node w4 (popover e) = find_node w3 (popover e)"
    "body_contains w3 (button e) \<longrightarrow> body_contains w4 (popover e)"
    "classes w4 = classes w3" "attrs w4 = attrs w3" "styles w4 = styles w3"
    "writes w4 = writes w3 @ [InsertAfterend (button e) (popover e)]"
    using insert_afterend_ok [of w3 "button e" q "popover e"] assms
    by (auto simp add: st doc3)
  define w5 where
    "w5 = setStyle (popover e) ''maxWidth''
            (Px (Num (clientWidth (layout_of B w4) (nid (doc w))))) w4"
  have d4: "nid (doc w4) = nid (doc w)"
    using w4(1) doc3
    by (auto simp add: insertAdjacentElement_afterend_def Let_def
        split: option.splits if_splits)
  have act: "activate B e onActivate (s, w)
      = Inr (s\<lparr>maxHeight := getMaxHeight B (content e) w5\<rparr>,
             call_optional onActivate (popover e) (button e) w5)"
    using w4(1) by (simp add: activate_def Let_def w3_def [symmetric] w5_def d4)
  have tr5: "trees w5 = trees w4" by (simp add: w5_def)
  note st5 = same_trees [OF tr5]
  have "writes w3 = writes w @
                [SetAttribute (button e) ''aria-expanded'' ''true'',
                 ClassAdd (button e) CLASS_CHANGING,
                 ClassAdd (button e) CLASS_ACTIVE]"
    by (simp add: w3_def addClass_def setAttribute_def)
  then have wr: "writes w4 = writes w @
                [SetAttribute (button e) ''aria-expanded'' ''true'',
                 ClassAdd (button e) CLASS_CHANGING,
                 ClassAdd (button e) CLASS_ACTIVE,
                 InsertAfterend (button e) (popover e)]"
    using w4(8) by simp
  have at: "attrs w4 = (attrs w)(button e := (attrs w (button e))(''aria-expanded'' \<mapsto> ''true''))"
    using w4(6) by (simp add: w3_def addClass_def setAttribute_def)
  have cl: "classes w4 = (classes w)(button e :=
                 insert CLASS_ACTIVE (insert CLASS_CHANGING (classes w (button e))))"
    using w4(5) by (simp add: w3_def addClass_def setAttribute_def)
  have sty: "styles w4 = styles w"
    using w4(7) by (simp add: w3_def addClass_def setAttribute_def)
  have sib: "nextElementSibling w5 (button e) = Some (popover e)"
    using w4(2) by (simp add: st5)
  have fnd: "find_node w5 (popover e) = find_node w (popover e)"
    using w4(3) by (simp add: st5 st)
  have mnt: "body_contains w (button e) \<longrightarrow> isMounted e w5"
    using w4(4) by (simp add: isMounted_def st5 st)
  show ?thesis
    using act w5_def wr at cl sty sib fnd mnt by blast
qed

subsection \<open>The active marker of the button\<close>


lemma classes_insert_afterend:
  "insertAdjacentElement_afterend r new w = Inr w' \<Longrightarrow> classes w' = classes w"
  by (auto simp add: insertAdjacentElement_afterend_def Let_def split: option.splits if_splits)

lemma keeps_active_None [simp]: "keeps_active e None"
  by (simp add: keeps_active_def call_optional_def)

lemma active_after_activate:
  assumes "keeps_active e cb"
  shows "isActive e (snd (perform B e (Activate cb) (s, w)))"
proof -
  define w3 where "w3 = addClass (button e) CLASS_ACTIVE
      (addClass (button e) CLASS_CHANGING
         (setAttribute (button e) ''aria-expanded'' ''true'' w))"
  have a3: "CLASS_ACTIVE \<in> classes w3 (button e)" by (simp add: w3_def addClass_def)
  show ?thesis
  proof (cases "insertAdjacentElement_afterend (button e) (popover e) w3")
    case (Inl err)
    then have "perform B e (Activate cb) (s, w) = (s, w3)"
      by (simp add: activate_def Let_def w3_def [symmetric])
    with a3 show ?thesis by (simp add: isActive_def hasClass_def)
  next
    case (Inr w4)
    then have c4: "classes w4 = classes w3" by (rule classes_insert_afterend)
    define w5 where
      "w5 = setStyle (popover e) ''maxWidth'' (Px (Num (clientWidth (layout_of B w4) (nid (doc w4))))) w4"
    have "snd (perform B e (Activate cb) (s, w))
        = call_optional cb (popover e) (button e) w5"
      using Inr by (simp add: activate_def Let_def w3_def [symmetric] w5_def)
    moreover have "hasClass (button e) CLASS_ACTIVE w5"
      using a3 c4 by (simp add: hasClass_def w5_def setStyle_def)
    ultimately show ?thesis
      using assms by (simp add: isActive_def keeps_active_def)
  qed
qed

lemma inactive_after_dismiss:
  assumes "keeps_active e cb"
  shows "\<not> isActive e (snd (perform B e (Dismiss cb) (s, w)))"
proof -
  define w4 where "w4 = removeClass (popover e) CLASS_ACTIVE
      (removeClass (button e) CLASS_ACTIVE
        (addClass (button e) CLASS_CHANGING
          (setAttribute (button e) ''aria-expanded'' ''false'' w)))"
  have "snd (perform B e (Dismiss cb) (s, w)) = call_optional cb (popover e) (button e) w4"
    by (simp add: dismiss_def w4_def)
  moreover have "\<not> hasClass (button e) CLASS_ACTIVE w4"
    by (simp add: hasClass_def w4_def removeClass_def)
  ultimately show ?thesis
    using assms by (simp add: isActive_def keeps_active_def)
qed

lemma active_after_ready:
  assumes "button e \<noteq> popover e"
  shows "isActive e (snd (ready e (s, w))) = isActive e w"
  using assms
  by (simp add: ready_def isActive_def hasClass_def removeClass_def addClass_def
      CLASS_ACTIVE_def CLASS_CHANGING_def)

lemma active_after_remove: "isActive e (snd (remove_popover e (s, w))) = isActive e w"
  by (simp add: remove_popover_def isActive_def hasClass_def removeClass_def
      node_remove_stores CLASS_ACTIVE_def CLASS_CHANGING_def)

lemma active_after_destroy: "isActive e (snd (destroy e (s, w))) = isActive e w"
  by (simp add: destroy_def isActive_def hasClass_def node_remove_stores)

lemma active_after_repositionPopover:
  "CLASS_ACTIVE \<in> classes (snd (repositionPopover B pop btn current w)) n
     \<longleftrightarrow> CLASS_ACTIVE \<in> classes w n"
  by (cases current; cases "fst (getFootnotePosition B btn pop w)")
    (auto simp add: repositionPopover_def Let_def removeClass_def addClass_def setStyle_def
      position_name_def CLASS_ACTIVE_def split: prod.splits)

lemma active_after_reposition: "isActive e (snd (reposition B e (s, w))) = isActive e w"
proof (cases "isMounted e w")
  case False
  then show ?thesis by (simp add: reposition_def)
next
  case True
  obtain res w1 where r: "repositionPopover B (popover e) (button e) (position s) w = (res, w1)"
    by (cases "repositionPopover B (popover e) (button e) (position s) w") auto
  then have "CLASS_ACTIVE \<in> classes w1 (button e) \<longleftrightarrow> CLASS_ACTIVE \<in> classes w (button e)"
    using active_after_repositionPopover [of B "popover e" "button e" "position s" w "button e"]
    by simp
  with True r show ?thesis
    by (cases res)
      (auto simp add: reposition_def Let_def isActive_def hasClass_def setStyle_def
        setAttribute_def removeAttribute_def addClass_def removeClass_def
        CLASS_ACTIVE_def CLASS_SCROLLABLE_def)
qed

lemma active_after_resize: "isActive e (snd (resize B e (s, w))) = isActive e w"
  by (simp add: resize_def Let_def isActive_def hasClass_def setStyle_def repositionTooltip_def
      split: option.splits)

lemma active_after_perform:
  assumes "button e \<noteq> popover e" and "keeps_active e (callback_of c)"
  shows "isActive e (snd (perform B e c (s, w)))
         = (case toggle_of c of None \<Rightarrow> isActive e w | Some a \<Rightarrow> a)"
proof (cases c)
  case (Activate cb)
  with assms(2) show ?thesis using active_after_activate [of e cb B s w] by simp
next
  case (Dismiss cb)
  with assms(2) show ?thesis using inactive_after_dismiss [of e cb B s w] by simp
next
  case Ready
  with assms(1) show ?thesis by (simp add: active_after_ready)
next
  case Remove
  then show ?thesis by (simp add: active_after_remove)
next
  case Reposition
  then show ?thesis by (simp add: active_after_reposition)
next
  case Resize
  then show ?thesis by (simp add: active_after_resize)
next
  case Destroy
  then show ?thesis by (simp add: active_after_destroy)
qed

subsection \<open>Listeners after an abort\<close>


lemma closest_carries: "closest w n a = Some el \<Longrightarrow> attrs w el a \<noteq> None"
  by (auto simp add: closest_def find_Some_iff)

lemma dispatch_aborted: "aborted l \<Longrightarrow> dispatch w ev l = (([], False), l)"
  by (simp add: dispatch_def)

lemma step_aborted:
  assumes "aborted l" and "step w i l = (a, l')"
  shows "aborted l' \<and> distinct a \<and> set a \<subseteq> set (pending_trailing l)
         \<and> set (pending_trailing l') \<subseteq> set (pending_trailing l) - set a"
proof (cases i)
  case (Dispatch ev)
  with assms show ?thesis by (auto simp add: dispatch_aborted)
next
  case (Advance d)
  with assms show ?thesis
    by (auto simp add: advance_def throttle_fire_def pending_trailing_def Let_def
        split: option.splits if_splits prod.splits)
next
  case Teardown
  with assms show ?thesis by (auto simp add: teardown_def pending_trailing_def)
qed

lemma run_aborted:
  assumes "aborted l"
  shows "distinct (fst (run w inputs l))
         \<and> set (fst (run w inputs l)) \<subseteq> set (pending_trailing l)
         \<and> aborted (snd (run w inputs l))"
  using assms
proof (induction inputs arbitrary: l)
  case Nil
  then show ?case by simp
next
  case (Cons i inputs)
  obtain a l1 where s: "step w i l = (a, l1)" by (cases "step w i l") auto
  obtain b l2 where r: "run w inputs l1 = (b, l2)" by (cases "run w inputs l1") auto
  from step_aborted [OF Cons.prems s] have
    st: "aborted l1" "distinct a" "set a \<subseteq> set (pending_trailing l)"
      "set (pending_trailing l1) \<subseteq> set (pending_trailing l) - set a"
    by simp_all
  from Cons.IH [OF st(1)] r have
    ih: "distinct b" "set b \<subseteq> set (pending_trailing l1)" "aborted l2"
    by simp_all
  from st ih have "distinct (a @ b)" by auto
  moreover from st ih have "set (a @ b) \<subseteq> set (pending_trailing l)" by auto
  ultimately show ?case using s r ih(3) by simp
qed

subsection \<open>Numbers\<close>

lemma js_add_commute: "js_add R a b = js_add R b a"
  by (cases a; cases b) (simp_all add: add.commute)

lemma js_lt_not_ge: "js_lt a b \<Longrightarrow> \<not> js_ge a b"
  by (cases a; cases b) (auto simp add: js_ge_def js_le_def)

lemma js_ge_refl: "a \<noteq> NaN \<Longrightarrow> js_ge a a"
  by (simp add: js_ge_def js_le_def)

lemma round_half_even_int: "round_half_even (of_int n) = n"
  by (simp add: round_half_even_def)

lemma binary_exponent_le:
  assumes "x \<noteq> 0" and "\<bar>x\<bar> < 2 powi k" and "- 1022 \<le> k - 1"
  shows "binary_exponent x \<le> k - 1"
proof -
  from assms(1) have pos: "0 < \<bar>x\<bar>" by simp
  have "2 powi k = (2::real) powr of_int k"
    by (simp add: powr_real_of_int')
  with assms(2) have "\<bar>x\<bar> < 2 powr of_int k" by simp
  with pos have "log 2 \<bar>x\<bar> < of_int k"
    by (simp add: log_less_iff)
  then have "\<lfloor>log 2 \<bar>x\<bar>\<rfloor> < k" by (simp add: floor_less_iff)
  with assms(3) show ?thesis by (simp add: binary_exponent_def)
qed

text \<open>An integer of less than 54 bits over a power of two is a double: rounding leaves
  it as it is.\<close>

lemma round_to_double_exact:
  assumes m: "\<bar>m\<bar> < 2 ^ 53" and j: "j \<le> 1074"
  shows "round_to_double (of_int m / 2 ^ j) = Num (of_int m / 2 ^ j)"
proof (cases "m = 0")
  case True
  then show ?thesis by (simp add: round_to_double_def)
next
  case False
  define x :: real where "x = of_int m / 2 ^ j"
  define e where "e = binary_exponent x"
  from False have x0: "x \<noteq> 0" by (simp add: x_def)
  have absx: "\<bar>x\<bar> = of_int \<bar>m\<bar> / 2 ^ j" by (simp add: x_def)
  from m have "(of_int \<bar>m\<bar> :: real) < of_int (2 ^ 53)" by (simp only: of_int_less_iff)
  then have m': "(of_int \<bar>m\<bar> :: real) < 2 ^ 53" by simp
  have "2 powi (53 - int j) = (2::real) ^ 53 / 2 ^ j"
    by (simp add: power_int_diff)
  with m' absx have "\<bar>x\<bar> < 2 powi (53 - int j)"
    by (simp add: divide_strict_right_mono)
  moreover from j have "- 1022 \<le> (53 - int j) - 1" by simp
  ultimately have "e \<le> (53 - int j) - 1"
    unfolding e_def using x0 by (intro binary_exponent_le)
  then have c: "0 \<le> 52 - int j - e" by simp
  define c where "c = nat (52 - int j - e)"
  have ulp: "(2::real) powi (e - 52) = 1 / (2 ^ j * 2 ^ c)"
  proof -
    have "e - 52 = - (int j + int c)" using c by (simp add: c_def)
    then have "(2::real) powi (e - 52) = 2 powi (- (int j + int c))" by simp
    also have "\<dots> = 1 / 2 powi (int (j + c))"
      by (simp only: power_int_minus of_nat_add) (simp add: field_simps)
    also have "\<dots> = 1 / 2 ^ (j + c)"
      by (simp only: power_int_of_nat)
    finally show ?thesis by (simp add: power_add)
  qed
  have q: "x / 2 powi (e - 52) = of_int (m * 2 ^ c)"
    by (simp add: ulp x_def)
  have y: "of_int (m * 2 ^ c) * (2::real) powi (e - 52) = x"
    by (simp add: ulp x_def)
  have "\<bar>x\<bar> \<le> of_int \<bar>m\<bar>"
    unfolding absx by (simp add: divide_le_eq mult_le_cancel_left1)
  with m' have "\<bar>x\<bar> < 2 ^ 1024" by simp
  with x0 q y show ?thesis
    unfolding x_def [symmetric]
    by (simp add: round_to_double_def Let_def e_def [symmetric] round_half_even_int
        del: of_int_mult of_int_power)
qed

lemma round_to_double_numeral:
  "numeral n < (2::int) ^ 53 \<Longrightarrow> round_to_double (numeral n) = Num (numeral n)"
  using round_to_double_exact [of "numeral n" 0] by simp

lemma round_to_double_neg_numeral:
  "numeral n < (2::int) ^ 53 \<Longrightarrow> round_to_double (- numeral n) = Num (- numeral n)"
  using round_to_double_exact [of "- numeral n" 0] by simp

lemma round_to_double_0: "round_to_double 0 = Num 0"
  by (simp add: round_to_double_def)

lemma round_to_double_fraction:
  "numeral n < (2::int) ^ 53 \<Longrightarrow> j \<le> 1074 \<Longrightarrow> numeral d = (2::real) ^ j
   \<Longrightarrow> round_to_double (numeral n / numeral d) = Num (numeral n / numeral d)"
  using round_to_double_exact [of "numeral n" j] by simp

lemmas round_to_double_simps =
  round_to_double_numeral round_to_double_neg_numeral round_to_double_0
  round_to_double_fraction [where j = 1] round_to_double_fraction [where j = 8]
  round_to_double_fraction [where j = 10]

subsection \<open>Pending timers after an abort\<close>

lemma clock_step: "clock l \<le> clock (snd (step w i l))"
  by (cases i)
    (auto simp add: dispatch_def advance_def teardown_def throttle_call_def Let_def
      split: prod.splits option.splits)

lemma clock_run: "clock l \<le> clock (snd (run w inputs l))"
proof (induction inputs arbitrary: l)
  case Nil
  then show ?case by simp
next
  case (Cons i inputs)
  have "clock l \<le> clock (snd (step w i l))" by (rule clock_step)
  also have "\<dots> \<le> clock (snd (run w inputs (snd (step w i l))))" by (rule Cons.IH)
  finally show ?case by (simp add: split_def Let_def)
qed

lemma run_without_timer:
  assumes "aborted l"
  shows "timer (throttledReposition l) = None \<Longrightarrow> RepositionAll \<notin> set (fst (run w inputs l))"
    and "timer (throttledResize l) = None \<Longrightarrow> ResizeAll \<notin> set (fst (run w inputs l))"
  using run_aborted [OF assms, of w inputs]
  by (auto simp add: pending_trailing_def split: if_splits)

text \<open>Once the registration is aborted, a pending trailing call runs at the first
  advance of the clock that reaches its due time, and not before.\<close>

lemma step_pending_reposition:
  assumes "aborted l" and "timer (throttledReposition l) = Some (d, i, a)" and "clock l < d"
  shows "aborted (snd (step w x l))
    \<and> (if d \<le> clock (snd (step w x l))
       then RepositionAll \<in> set (fst (step w x l))
            \<and> timer (throttledReposition (snd (step w x l))) = None
       else RepositionAll \<notin> set (fst (step w x l))
            \<and> timer (throttledReposition (snd (step w x l))) = Some (d, i, a))"
proof (cases x)
  case (Dispatch ev)
  with assms show ?thesis by (simp add: dispatch_aborted)
next
  case (Advance n)
  with assms show ?thesis
    by (auto simp add: advance_def throttle_fire_def Let_def split: option.splits prod.splits)
next
  case Teardown
  with assms show ?thesis by (simp add: teardown_def)
qed

lemma step_pending_resize:
  assumes "aborted l" and "timer (throttledResize l) = Some (d, i, a)" and "clock l < d"
  shows "aborted (snd (step w x l))
    \<and> (if d \<le> clock (snd (step w x l))
       then ResizeAll \<in> set (fst (step w x l))
            \<and> timer (throttledResize (snd (step w x l))) = None
       else ResizeAll \<notin> set (fst (step w x l))
            \<and> timer (throttledResize (snd (step w x l))) = Some (d, i, a))"
proof (cases x)
  case (Dispatch ev)
  with assms show ?thesis by (simp add: dispatch_aborted)
next
  case (Advance n)
  with assms show ?thesis
    by (auto simp add: advance_def throttle_fire_def Let_def split: option.splits prod.splits)
next
  case Teardown
  with assms show ?thesis by (simp add: teardown_def)
qed

lemma run_pending_reposition:
  assumes "aborted l" and "timer (throttledReposition l) = Some (d, i, a)" and "clock l < d"
  shows "(RepositionAll \<in> set (fst (run w inputs l))) = (d \<le> clock (snd (run w inputs l)))"
  using assms
proof (induction inputs arbitrary: l)
  case Nil
  then show ?case by simp
next
  case (Cons x inputs)
  define l1 where "l1 = snd (step w x l)"
  define out where "out = fst (step w x l)"
  have r: "run w (x # inputs) l = (out @ fst (run w inputs l1), snd (run w inputs l1))"
    by (simp add: l1_def out_def split_def Let_def)
  from step_pending_reposition [OF Cons.prems, of w x] have
    ab: "aborted l1"
    and st: "if d \<le> clock l1
       then RepositionAll \<in> set out \<and> timer (throttledReposition l1) = None
       else RepositionAll \<notin> set out \<and> timer (throttledReposition l1) = Some (d, i, a)"
    by (simp_all add: l1_def out_def)
  show ?case
  proof (cases "d \<le> clock l1")
    case True
    with st have "RepositionAll \<in> set out" by simp
    moreover from True clock_run [of l1 w inputs] have "d \<le> clock (snd (run w inputs l1))"
      by simp
    ultimately show ?thesis unfolding r by simp
  next
    case False
    with st have n: "RepositionAll \<notin> set out"
      and t: "timer (throttledReposition l1) = Some (d, i, a)" by simp_all
    from False have "clock l1 < d" by simp
    from Cons.IH [OF ab t this] n show ?thesis unfolding r by simp
  qed
qed

lemma run_pending_resize:
  assumes "aborted l" and "timer (throttledResize l) = Some (d, i, a)" and "clock l < d"
  shows "(ResizeAll \<in> set (fst (run w inputs l))) = (d \<le> clock (snd (run w inputs l)))"
  using assms
proof (induction inputs arbitrary: l)
  case Nil
  then show ?case by simp
next
  case (Cons x inputs)
  define l1 where "l1 = snd (step w x l)"
  define out where "out = fst (step w x l)"
  have r: "run w (x # inputs) l = (out @ fst (run w inputs l1), snd (run w inputs l1))"
    by (simp add: l1_def out_def split_def Let_def)
  from step_pending_resize [OF Cons.prems, of w x] have
    ab: "aborted l1"
    and st: "if d \<le> clock l1
       then ResizeAll \<in> set out \<and> timer (throttledResize l1) = None
       else ResizeAll \<notin> set out \<and> timer (throttledResize l1) = Some (d, i, a)"
    by (simp_all add: l1_def out_def)
  show ?case
  proof (cases "d \<le> clock l1")
    case True
    with st have "ResizeAll \<in> set out" by simp
    moreover from True clock_run [of l1 w inputs] have "d \<le> clock (snd (run w inputs l1))"
      by simp
    ultimately show ?thesis unfolding r by simp
  next
    case False
    with st have n: "ResizeAll \<notin> set out"
      and t: "timer (throttledResize l1) = Some (d, i, a)" by simp_all
    from False have "clock l1 < d" by simp
    from Cons.IH [OF ab t this] n show ?thesis unfolding r by simp
  qed
qed

section \<open>Vertical placement (layout.ts)\<close>

text \<open>
  C1, as stated, fails: the margin that \<open>getFootnotePosition\<close> uses is not the
  popover's vertical margin but what \<open>parseInt\<close> reads of it. With the button's top
  at 470, a button 20 high, a popover 100 high, a viewport 600 high and a computed top
  margin of \<open>10.5px\<close>, the room below is 120 and the room above 480. The code takes
  the margin to be 10, finds the required height 120 and decides \<open>below\<close>; the rule of
  the claim on the margin 10.5 requires 121 and decides \<open>above\<close>.
\<close>

theorem fractional_margin_decision:
  "computedStyle (layout_of (example_browser_margin 470) example_page_open) 3 ''marginTop''
     = Dimension (21 / 2) ''px''
   \<and> fst (getFootnotePosition (example_browser_margin 470) 2 3 example_page_open) = below
   \<and> spec_vertical_decision round_to_double (Num 470) (Num 20) (Num 100)
        (parseFloat round_to_double (Dimension (21 / 2) ''px'')) (Num 600) = above"
  by (simp add: getFootnotePosition_def example_browser_margin_def example_layout_def Let_def
      spec_vertical_decision_def spec_room_below_def spec_room_above_def
      spec_required_height_def js_sub_def js_ge_def js_le_def round_to_double_simps)

text \<open>
  C1, amended. Take as margin the integer part of the popover's computed top margin,
  as \<open>parseInt\<close> reads it, and compute every quantity in the arithmetic of the
  language. Then the decision of \<open>getFootnotePosition\<close> is the decision of the
  specification, computed from the button's top and height, the popover's height, that
  margin and the viewport height, and from nothing else: \<open>below\<close> when the room below
  is at least the required height or at least the room above, \<open>above\<close> otherwise. Both
  ties (room below equal to room above, room below equal to the required height) give
  \<open>below\<close>; a room below that is less than both gives \<open>above\<close>.
\<close>

theorem getFootnotePosition_decision:
  "fst (getFootnotePosition B btn pop w) =
     spec_vertical_decision (rnd B)
       (Num (rectTop (layout_of B w) btn)) (Num (offsetHeight (layout_of B w) btn))
       (Num (offsetHeight (layout_of B w) pop))
       (parseInt (rnd B) (computedStyle (layout_of B w) pop ''marginTop''))
       (Num (innerHeight (layout_of B w)))
   \<and> (spec_room_below R bt bh vh = spec_room_above R bt bh
        \<and> spec_room_below R bt bh vh \<noteq> NaN
        \<longrightarrow> spec_vertical_decision R bt bh ph m vh = below)
   \<and> (spec_room_below R bt bh vh = spec_required_height R ph m
        \<and> spec_room_below R bt bh vh \<noteq> NaN
        \<longrightarrow> spec_vertical_decision R bt bh ph m vh = below)
   \<and> (js_lt (spec_room_below R bt bh vh) (spec_required_height R ph m)
        \<and> js_lt (spec_room_below R bt bh vh) (spec_room_above R bt bh)
        \<longrightarrow> spec_vertical_decision R bt bh ph m vh = above)"
proof -
  have code: "fst (getFootnotePosition B btn pop w) =
     spec_vertical_decision (rnd B)
       (Num (rectTop (layout_of B w) btn)) (Num (offsetHeight (layout_of B w) btn))
       (Num (offsetHeight (layout_of B w) pop))
       (parseInt (rnd B) (computedStyle (layout_of B w) pop ''marginTop''))
       (Num (innerHeight (layout_of B w)))"
    by (simp add: getFootnotePosition_def spec_vertical_decision_def spec_room_below_def
        spec_room_above_def spec_required_height_def Let_def
        js_add_commute [of _ "Num (offsetHeight (layout_of B w) pop)"])
  have tie_rooms: "spec_vertical_decision R bt bh ph m vh = below"
    if "spec_room_below R bt bh vh = spec_room_above R bt bh"
      and "spec_room_below R bt bh vh \<noteq> NaN"
    using that js_ge_refl [of "spec_room_below R bt bh vh"]
    by (simp add: spec_vertical_decision_def)
  have tie_height: "spec_vertical_decision R bt bh ph m vh = below"
    if "spec_room_below R bt bh vh = spec_required_height R ph m"
      and "spec_room_below R bt bh vh \<noteq> NaN"
    using that js_ge_refl [of "spec_room_below R bt bh vh"]
    by (simp add: spec_vertical_decision_def)
  have less: "spec_vertical_decision R bt bh ph m vh = above"
    if "js_lt (spec_room_below R bt bh vh) (spec_required_height R ph m)"
      and "js_lt (spec_room_below R bt bh vh) (spec_room_above R bt bh)"
    using that [THEN js_lt_not_ge] by (simp add: spec_vertical_decision_def)
  from code tie_rooms tie_height less show ?thesis by blast
qed

theorem getFootnotePosition_decision_witness:
  "fst (getFootnotePosition (example_browser 290) 2 3 example_page) = below
   \<and> fst (getFootnotePosition (example_browser 480) 2 3 example_page) = above
   \<and> fst (getFootnotePosition (example_browser_margin 470) 2 3 example_page) = below
   \<and> spec_room_below round_to_double (Num 290) (Num 20) (Num 600) = Num 300
   \<and> spec_room_above round_to_double (Num 290) (Num 20) = Num 300
   \<and> spec_vertical_decision round_to_double (Num 290) (Num 20) (Num 1000) (Num 10) (Num 600)
       = below
   \<and> spec_room_below round_to_double (Num 470) (Num 20) (Num 600) = Num 120
   \<and> spec_required_height round_to_double (Num 100) (Num 10) = Num 120
   \<and> spec_vertical_decision round_to_double (Num 470) (Num 20) (Num 100) (Num 10) (Num 600)
       = below
   \<and> js_lt (spec_room_below round_to_double (Num 480) (Num 20) (Num 600))
        (spec_required_height round_to_double (Num 100) (Num 10))
   \<and> js_lt (spec_room_below round_to_double (Num 480) (Num 20) (Num 600))
        (spec_room_above round_to_double (Num 480) (Num 20))
   \<and> spec_vertical_decision round_to_double (Num 480) (Num 20) (Num 100) (Num 10) (Num 600)
       = above"
proof -
  have v: "spec_room_below round_to_double (Num 290) (Num 20) (Num 600) = Num 300"
    "spec_room_above round_to_double (Num 290) (Num 20) = Num 300"
    "spec_room_below round_to_double (Num 470) (Num 20) (Num 600) = Num 120"
    "spec_required_height round_to_double (Num 100) (Num 10) = Num 120"
    "spec_room_below round_to_double (Num 480) (Num 20) (Num 600) = Num 110"
    "spec_room_above round_to_double (Num 480) (Num 20) = Num 490"
    by (simp_all add: spec_room_below_def spec_room_above_def spec_required_height_def
        js_sub_def round_to_double_simps)
  have l: "rnd (example_browser y) = round_to_double"
    "rectTop (layout_of (example_browser y) example_page) 2 = y"
    "offsetHeight (layout_of (example_browser y) example_page) 2 = 20"
    "offsetHeight (layout_of (example_browser y) example_page) 3 = 100"
    "computedStyle (layout_of (example_browser y) example_page) 3 ''marginTop''
       = Dimension 10 ''px''"
    "innerHeight (layout_of (example_browser y) example_page) = 600" for y
    by (simp_all add: example_browser_def example_layout_def)
  have k: "rnd (example_browser_margin y) = round_to_double"
    "rectTop (layout_of (example_browser_margin y) example_page) 2 = y"
    "offsetHeight (layout_of (example_browser_margin y) example_page) 2 = 20"
    "offsetHeight (layout_of (example_browser_margin y) example_page) 3 = 100"
    "computedStyle (layout_of (example_browser_margin y) example_page) 3 ''marginTop''
       = Dimension (21 / 2) ''px''"
    "innerHeight (layout_of (example_browser_margin y) example_page) = 600" for y
    by (simp_all add: example_browser_margin_def example_layout_def)
  have p: "parseInt round_to_double (Dimension 10 ''px'') = Num 10"
    "parseInt round_to_double (Dimension (21 / 2) ''px'') = Num 10"
    by (simp_all add: round_to_double_simps)
  show ?thesis
    using getFootnotePosition_decision [of "example_browser 290" 2 3 example_page
        round_to_double "Num 290" "Num 20" "Num 600" "Num 1000" "Num 10"]
      getFootnotePosition_decision [of "example_browser 480" 2 3 example_page
        round_to_double "Num 480" "Num 20" "Num 600" "Num 100" "Num 10"]
      getFootnotePosition_decision [of "example_browser_margin 470" 2 3 example_page
        round_to_double "Num 470" "Num 20" "Num 600" "Num 100" "Num 10"]
    by (simp add: v l k p round_to_double_simps spec_vertical_decision_def
        spec_required_height_def js_ge_def js_le_def)
qed

text \<open>
  C2, as stated, fails for the same reason: the room that \<open>repositionPopover\<close> returns
  is the room of the chosen side minus what \<open>parseInt\<close> reads of the margin minus 15.
  With the button's top at 290 (room 300 on either side, so \<open>below\<close>) and a computed
  top margin of \<open>10.5px\<close> the code returns 275, where the room minus the popover's
  margin minus 15 is 274.5.
\<close>

theorem fractional_margin_room:
  "computedStyle (layout_of (example_browser_margin 290) example_page_open) 3 ''marginTop''
     = Dimension (21 / 2) ''px''
   \<and> repositionPopover (example_browser_margin 290) 3 2 below example_page_open
       = ((below, Num 275), example_page_open)
   \<and> spec_available_room round_to_double
        (spec_chosen_room round_to_double below (Num 290) (Num 20) (Num 600))
        (parseFloat round_to_double (Dimension (21 / 2) ''px'')) = Num (549 / 2)"
  by (simp add: repositionPopover_def getFootnotePosition_def example_browser_margin_def
      example_layout_def Let_def spec_available_room_def spec_chosen_room_def
      spec_room_below_def spec_room_above_def js_sub_def js_ge_def js_le_def
      round_to_double_simps)

text \<open>
  C2, amended. \<open>repositionPopover\<close> returns the newly computed position with the room
  of the chosen side minus the margin minus 15, where the margin is the integer part
  of the popover's computed top margin, as \<open>parseInt\<close> reads it. When that position is
  the previous one the page is left exactly as it was: no write is issued. When it
  differs, the class of the previous position is removed, the class of the new one is
  added and the transform origin is set, in this order, and nothing else changes.
\<close>

theorem repositionPopover_transition:
  "(let L = layout_of B w;
        (next, room) = getFootnotePosition B btn pop w;
        (res, w') = repositionPopover B pop btn current w;
        margin = parseInt (rnd B) (computedStyle L pop ''marginTop'');
        chosen = spec_chosen_room (rnd B) next (Num (rectTop L btn))
                   (Num (offsetHeight L btn)) (Num (innerHeight L));
        swapped = addClass pop (''is-'' @ position_name next)
                    (removeClass pop (''is-'' @ position_name current) w);
        origin = Origin (js_mul (rnd B) (getLeftRelative B btn swapped) (Num 100))
                   (if next = above then ''100%'' else ''0'')
    in res = (next, spec_available_room (rnd B) chosen margin)
       \<and> (current = next \<longrightarrow> w' = w)
       \<and> (current \<noteq> next \<longrightarrow>
            classes w' = (classes w)(pop :=
               insert (''is-'' @ position_name next)
                 (classes w pop - {''is-'' @ position_name current}))
            \<and> styles w' = (styles w)(pop := (styles w pop)(''transformOrigin'' \<mapsto> origin))
            \<and> writes w' = writes w @
                 [ClassRemove pop (''is-'' @ position_name current),
                  ClassAdd pop (''is-'' @ position_name next),
                  SetStyle pop ''transformOrigin'' origin]
            \<and> doc w' = doc w \<and> detached w' = detached w \<and> attrs w' = attrs w))"
  by (simp add: repositionPopover_def getFootnotePosition_def Let_def removeClass_def
      addClass_def setStyle_def spec_available_room_def spec_chosen_room_def
      spec_room_below_def spec_room_above_def split: prod.splits)

theorem repositionPopover_transition_witness:
  "repositionPopover (example_browser 290) 3 2 below example_page
     = ((below, Num 275), example_page)
   \<and> fst (repositionPopover (example_browser 290) 3 2 above example_page) = (below, Num 275)
   \<and> classes (snd (repositionPopover (example_browser 290) 3 2 above example_page)) 3
       = {''is-below''}
   \<and> writes (snd (repositionPopover (example_browser 290) 3 2 above example_page))
       = [ClassRemove 3 ''is-above'', ClassAdd 3 ''is-below'',
          SetStyle 3 ''transformOrigin'' (Origin (Num (2875 / 256)) ''0'')]
   \<and> fst (repositionPopover (example_browser 480) 3 2 above example_page)
       = (above, Num 465)
   \<and> snd (repositionPopover (example_browser 480) 3 2 above example_page) = example_page"
  using repositionPopover_transition [of "example_browser 290" example_page 2 3 below]
    repositionPopover_transition [of "example_browser 290" example_page 2 3 above]
    repositionPopover_transition [of "example_browser 480" example_page 2 3 above]
  by (simp add: getFootnotePosition_def example_browser_def example_layout_def
      Let_def position_name_def getLeftRelative_def example_page_def
      spec_available_room_def spec_chosen_room_def spec_room_below_def spec_room_above_def
      js_sub_def js_ge_def js_le_def round_to_double_simps
      split: prod.splits)

section \<open>The scroll boundary detector (scroll.ts)\<close>




section \<open>The footnote lifecycle (footnote.ts)\<close>

text \<open>
  C7. While the popover is not in the document, \<open>reposition\<close> and \<open>resize\<close> return the
  captured variables (position, maxHeight) and the page exactly as they found them:
  no attribute, class or style changes and no write is issued. Neither can throw. This
  is the case right after \<open>remove\<close>, for any popover other than the body.
\<close>

theorem detached_reposition_resize_noop:
  assumes "\<not> isMounted e w"
  shows "reposition B e (s, w) = (s, w) \<and> resize B e (s, w) = (s, w)
     \<and> (popover e \<noteq> nid (doc w0) \<longrightarrow>
          reposition B e (remove_popover e (s0, w0)) = remove_popover e (s0, w0)
          \<and> resize B e (remove_popover e (s0, w0)) = remove_popover e (s0, w0))"
proof -
  have "\<not> isMounted e (snd (remove_popover e (s0, w0)))" if "popover e \<noteq> nid (doc w0)"
    using body_after_remove [OF that]
    by (simp add: remove_popover_def isMounted_def body_contains_def removeClass_def Let_def)
  then have "popover e \<noteq> nid (doc w0) \<longrightarrow>
          reposition B e (remove_popover e (s0, w0)) = remove_popover e (s0, w0)
          \<and> resize B e (remove_popover e (s0, w0)) = remove_popover e (s0, w0)"
    by (cases "remove_popover e (s0, w0)") (simp add: reposition_def resize_def)
  with assms show ?thesis by (simp add: reposition_def resize_def)
qed

theorem detached_reposition_resize_noop_witness:
  "\<not> isMounted example_elements example_page
   \<and> reposition (example_browser 290) example_elements (initial_captured, example_page)
       = (initial_captured, example_page)
   \<and> resize (example_browser 290) example_elements (initial_captured, example_page)
       = (initial_captured, example_page)
   \<and> popover example_elements \<noteq> nid (doc example_page_open)
   \<and> isMounted example_elements example_page_open
   \<and> reposition (example_browser 290) example_elements
         (remove_popover example_elements (initial_captured, example_page_open))
       = remove_popover example_elements (initial_captured, example_page_open)
   \<and> resize (example_browser 290) example_elements
         (remove_popover example_elements (initial_captured, example_page_open))
       = remove_popover example_elements (initial_captured, example_page_open)"
proof -
  have h: "\<not> isMounted example_elements example_page"
    by (simp add: isMounted_def body_contains_def example_elements_def example_page_def)
  have i: "popover example_elements \<noteq> nid (doc example_page_open)"
    by (simp add: example_elements_def example_page_open_def)
  have j: "isMounted example_elements example_page_open"
    by (simp add: isMounted_def body_contains_def example_elements_def example_page_open_def)
  show ?thesis
    using h i j
      detached_reposition_resize_noop [OF h, of "example_browser 290" initial_captured
        example_page_open initial_captured]
    by simp
qed

text \<open>
  C9. \<open>activate\<close>, for a button that has a parent and a popover that is neither the
  body nor an inclusive ancestor of the button or of its parent (so that the insertion
  cannot throw), issues exactly these writes, in this order: \<open>aria-expanded\<close> of the
  button is set to \<open>true\<close>; the classes \<open>is-changing\<close> and \<open>is-active\<close> are added to
  the button; the popover is inserted right after the button (it is then the button's
  next sibling, the same subtree as before, and in the document when the button is);
  the popover's \<open>maxWidth\<close> is set to the client width of the body, measured at that
  moment. Then the content's maximal height is measured and stored. Last, a callback
  that was passed is applied to the popover and the button, in this order of
  arguments, on the page as these writes left it, and the page it returns is the page
  that \<open>activate\<close> returns: the callback has run when \<open>activate\<close> returns. Without a
  callback the page is returned as the writes left it.
\<close>

theorem activate_effects:
  assumes "parentNode w (button e) = Some q"
    and "popover e \<notin> set (inclusive_ancestors w q)"
    and "popover e \<notin> set (inclusive_ancestors w (button e))"
    and "popover e \<noteq> nid (doc w)"
  shows "\<exists>w4 w5.
           activate B e onActivate (s, w)
             = Inr (s\<lparr>maxHeight := getMaxHeight B (content e) w5\<rparr>,
                    case onActivate of
                      None \<Rightarrow> w5
                    | Some f \<Rightarrow> f (popover e) (button e) w5)
           \<and> w5 = setStyle (popover e) ''maxWidth''
                     (Px (Num (clientWidth (layout_of B w4) (nid (doc w))))) w4
           \<and> writes w4 = writes w @
                [SetAttribute (button e) ''aria-expanded'' ''true'',
                 ClassAdd (button e) CLASS_CHANGING,
                 ClassAdd (button e) CLASS_ACTIVE,
                 InsertAfterend (button e) (popover e)]
           \<and> attrs w4 = (attrs w)(button e := (attrs w (button e))(''aria-expanded'' \<mapsto> ''true''))
           \<and> classes w4 = (classes w)(button e :=
                 insert CLASS_ACTIVE (insert CLASS_CHANGING (classes w (button e))))
           \<and> styles w4 = styles w
           \<and> nextElementSibling w5 (button e) = Some (popover e)
           \<and> find_node w5 (popover e) = find_node w (popover e)
           \<and> (body_contains w (button e) \<longrightarrow> isMounted e w5)"
proof -
  have "call_optional onActivate (popover e) (button e) w5
        = (case onActivate of None \<Rightarrow> w5 | Some f \<Rightarrow> f (popover e) (button e) w5)" for w5
    by (simp add: call_optional_def)
  with activate_ok [OF assms, of B onActivate s] show ?thesis by simp
qed

theorem activate_effects_witness:
  "parentNode example_page (button example_elements) = Some 1
   \<and> popover example_elements \<notin> set (inclusive_ancestors example_page 1)
   \<and> popover example_elements \<notin> set (inclusive_ancestors example_page (button example_elements))
   \<and> popover example_elements \<noteq> nid (doc example_page)
   \<and> body_contains example_page (button example_elements)
   \<and> (\<exists>s' w'. activate (example_browser 290) example_elements (Some example_callback)
                   (initial_captured, example_page) = Inr (s', w')
          \<and> maxHeight s' = Num 10
          \<and> writes w' =
               [SetAttribute 2 ''aria-expanded'' ''true'',
                ClassAdd 2 CLASS_CHANGING,
                ClassAdd 2 CLASS_ACTIVE,
                InsertAfterend 2 3,
                SetStyle 3 ''maxWidth'' (Px (Num 800)),
                SetAttribute 3 ''data-first'' ''yes'',
                SetAttribute 2 ''data-second'' ''yes'']
          \<and> attrs w' 3 ''data-first'' = Some ''yes''
          \<and> attrs w' 2 ''data-second'' = Some ''yes''
          \<and> nextElementSibling w' 2 = Some 3
          \<and> isMounted example_elements w')
   \<and> (\<exists>s' w'. activate (example_browser 290) example_elements None
                   (initial_captured, example_page) = Inr (s', w')
          \<and> writes w' =
               [SetAttribute 2 ''aria-expanded'' ''true'',
                ClassAdd 2 CLASS_CHANGING,
                ClassAdd 2 CLASS_ACTIVE,
                InsertAfterend 2 3,
                SetStyle 3 ''maxWidth'' (Px (Num 800))])"
proof -
  have h1: "parentNode example_page (button example_elements) = Some 1"
    by (simp add: example_elements_def example_page_def parentNode_def inclusive_ancestors_def
        trees_def)
  have h2: "popover example_elements \<notin> set (inclusive_ancestors example_page 1)"
    by (simp add: example_elements_def example_page_def inclusive_ancestors_def trees_def)
  have h3: "popover example_elements
              \<notin> set (inclusive_ancestors example_page (button example_elements))"
    by (simp add: example_elements_def example_page_def inclusive_ancestors_def trees_def)
  have h4: "popover example_elements \<noteq> nid (doc example_page)"
    by (simp add: example_elements_def example_page_def)
  have h5: "body_contains example_page (button example_elements)"
    by (simp add: example_elements_def example_page_def body_contains_def)
  have mh: "getMaxHeight (example_browser 290) n v = Num 10" for n v
    by (simp add: getMaxHeight_def example_browser_def example_layout_def
        round_to_double_simps)
  from activate_effects [OF h1 h2 h3 h4, of "example_browser 290" "Some example_callback"
      initial_captured]
  obtain w4 w5 where
    act: "activate (example_browser 290) example_elements (Some example_callback)
            (initial_captured, example_page)
           = Inr (initial_captured
                    \<lparr>maxHeight := getMaxHeight (example_browser 290) (content example_elements) w5\<rparr>,
                  example_callback (popover example_elements) (button example_elements) w5)"
    and w5: "w5 = setStyle (popover example_elements) ''maxWidth''
               (Px (Num (clientWidth (layout_of (example_browser 290) w4)
                     (nid (doc example_page))))) w4"
    and wr: "writes w4 = writes example_page @
                [SetAttribute (button example_elements) ''aria-expanded'' ''true'',
                 ClassAdd (button example_elements) CLASS_CHANGING,
                 ClassAdd (button example_elements) CLASS_ACTIVE,
                 InsertAfterend (button example_elements) (popover example_elements)]"
    and sib: "nextElementSibling w5 (button example_elements) = Some (popover example_elements)"
    and mnt: "body_contains example_page (button example_elements)
                \<longrightarrow> isMounted example_elements w5"
    by auto
  define w6 where "w6 = example_callback 3 2 w5"
  have tr: "trees w6 = trees w5"
    by (simp add: w6_def example_callback_def)
  have c: "writes w6 =
               [SetAttribute 2 ''aria-expanded'' ''true'',
                ClassAdd 2 CLASS_CHANGING,
                ClassAdd 2 CLASS_ACTIVE,
                InsertAfterend 2 3,
                SetStyle 3 ''maxWidth'' (Px (Num 800)),
                SetAttribute 3 ''data-first'' ''yes'',
                SetAttribute 2 ''data-second'' ''yes'']"
    using wr
    by (simp add: w6_def example_callback_def w5 setStyle_def setAttribute_def
        example_elements_def example_page_def example_browser_def example_layout_def)
  have at: "attrs w6 3 ''data-first'' = Some ''yes''" "attrs w6 2 ''data-second'' = Some ''yes''"
    by (simp_all add: w6_def example_callback_def setAttribute_def)
  have d: "nextElementSibling w6 2 = Some 3"
    using sib by (simp add: example_elements_def same_trees [OF tr])
  have m: "isMounted example_elements w6"
    using mnt h5 by (simp add: isMounted_def same_trees [OF tr])
  have first: "\<exists>s' w'. activate (example_browser 290) example_elements (Some example_callback)
                   (initial_captured, example_page) = Inr (s', w')
          \<and> maxHeight s' = Num 10
          \<and> writes w' =
               [SetAttribute 2 ''aria-expanded'' ''true'',
                ClassAdd 2 CLASS_CHANGING,
                ClassAdd 2 CLASS_ACTIVE,
                InsertAfterend 2 3,
                SetStyle 3 ''maxWidth'' (Px (Num 800)),
                SetAttribute 3 ''data-first'' ''yes'',
                SetAttribute 2 ''data-second'' ''yes'']
          \<and> attrs w' 3 ''data-first'' = Some ''yes''
          \<and> attrs w' 2 ''data-second'' = Some ''yes''
          \<and> nextElementSibling w' 2 = Some 3
          \<and> isMounted example_elements w'"
    using act c at d m by (simp add: mh w6_def example_elements_def)
  from activate_effects [OF h1 h2 h3 h4, of "example_browser 290" None initial_captured]
  obtain v4 v5 where
    act': "activate (example_browser 290) example_elements None (initial_captured, example_page)
           = Inr (initial_captured
                    \<lparr>maxHeight := getMaxHeight (example_browser 290) (content example_elements) v5\<rparr>,
                  v5)"
    and v5: "v5 = setStyle (popover example_elements) ''maxWidth''
               (Px (Num (clientWidth (layout_of (example_browser 290) v4)
                     (nid (doc example_page))))) v4"
    and vr: "writes v4 = writes example_page @
                [SetAttribute (button example_elements) ''aria-expanded'' ''true'',
                 ClassAdd (button example_elements) CLASS_CHANGING,
                 ClassAdd (button example_elements) CLASS_ACTIVE,
                 InsertAfterend (button example_elements) (popover example_elements)]"
    by auto
  have "writes v5 =
               [SetAttribute 2 ''aria-expanded'' ''true'',
                ClassAdd 2 CLASS_CHANGING,
                ClassAdd 2 CLASS_ACTIVE,
                InsertAfterend 2 3,
                SetStyle 3 ''maxWidth'' (Px (Num 800))]"
    using vr
    by (simp add: v5 setStyle_def example_elements_def example_page_def example_browser_def
        example_layout_def)
  with act' have second: "\<exists>s' w'. activate (example_browser 290) example_elements None
                   (initial_captured, example_page) = Inr (s', w')
          \<and> writes w' =
               [SetAttribute 2 ''aria-expanded'' ''true'',
                ClassAdd 2 CLASS_CHANGING,
                ClassAdd 2 CLASS_ACTIVE,
                InsertAfterend 2 3,
                SetStyle 3 ''maxWidth'' (Px (Num 800))]"
    by simp
  from h1 h2 h3 h4 h5 first second show ?thesis by blast
qed

text \<open>
  C5. For a footnote whose button is in the document, is not the body and does not lie
  inside the popover, and whose popover is not the body: \<open>dismiss()\<close> leaves the tree
  as it is (it does not detach the popover); after \<open>dismiss()\<close> and \<open>remove()\<close> the
  popover is not in the document and \<open>isReady()\<close> is true; and \<open>activate()\<close> then
  returns without throwing, with the popover, the same node with the subtree it had when
  it was detached, in the document as the next sibling of the button.
\<close>

theorem dismiss_remove_activate:
  assumes "popover e \<noteq> nid (doc w)"
    and "body_contains w (button e)"
    and "button e \<noteq> nid (doc w)"
    and "popover e \<notin> set (inclusive_ancestors w (button e))"
  shows "(let (sd, wd) = dismiss e None (s, w);
              (sr, wr) = remove_popover e (sd, wd)
          in doc wd = doc w \<and> detached wd = detached w
             \<and> \<not> isMounted e wr \<and> isReady e wr
             \<and> (\<exists>sa wa. activate B e None (sr, wr) = Inr (sa, wa)
                   \<and> isMounted e wa
                   \<and> nextElementSibling wa (button e) = Some (popover e)
                   \<and> find_node wa (popover e) = find_node wr (popover e)))"
proof -
  define wd where "wd = removeClass (popover e) CLASS_ACTIVE
      (removeClass (button e) CLASS_ACTIVE
        (addClass (button e) CLASS_CHANGING
          (setAttribute (button e) ''aria-expanded'' ''false'' w)))"
  define wr where "wr = removeClass (button e) CLASS_CHANGING (node_remove (popover e) wd)"
  define D where "D = detach (popover e) (doc w)"
  have dis: "dismiss e None (s, w) = (s, wd)"
    by (simp add: dismiss_def wd_def call_optional_def)
  have rem: "remove_popover e (s, wd) = (s, wr)"
    by (simp add: remove_popover_def wr_def)
  have dd: "doc wd = doc w" "detached wd = detached w"
    by (simp_all add: wd_def removeClass_def addClass_def setAttribute_def)
  have docr: "doc wr = D"
    using assms(1) by (simp add: wr_def removeClass_def doc_after_remove dd D_def)
  have pD: "popover e \<notin> set (nodes D)"
    using assms(1) by (simp add: D_def not_in_nodes_detach)
  have nidD: "nid D = nid (doc w)" by (simp add: D_def)
  have unmounted: "\<not> isMounted e wr"
    using pD by (simp add: isMounted_def body_contains_def docr)
  have rdy: "isReady e wr"
    by (simp add: isReady_def hasClass_def wr_def removeClass_def)
  \<comment> \<open>the button stays where it was\<close>
  from assms(2) have bdoc: "button e \<in> set (nodes (doc w))" by (simp add: body_contains_def)
  then have "inclusive_ancestors w (button e) = path_to (button e) (doc w)"
    by (rule in_doc_ancestors)
  with assms(4) have "path_to (button e) D = path_to (button e) (doc w)"
    unfolding D_def by (intro path_detach_same) simp
  moreover from bdoc have "path_to (button e) (doc w) \<noteq> []" using path_nonempty_iff by blast
  ultimately have bD: "button e \<in> set (nodes (doc wr))"
    using path_nonempty_iff [of "button e" D] by (simp add: docr)
  have bne: "button e \<noteq> nid (doc wr)" using assms(3) by (simp add: docr nidD)
  from parent_in_doc [OF bD bne] obtain q rest where
    anc: "inclusive_ancestors wr (button e) = button e # q # rest"
    and par: "parentNode wr (button e) = Some q"
    and qD: "q \<in> set (nodes (doc wr))" by blast
  have "inclusive_ancestors wr (button e) = path_to (button e) (doc wr)"
    using bD by (rule in_doc_ancestors)
  then have h3: "popover e \<notin> set (inclusive_ancestors wr (button e))"
    using pD path_in_nodes [of "button e" D] by (auto simp add: docr)
  have "inclusive_ancestors wr q = path_to q (doc wr)"
    using qD by (rule in_doc_ancestors)
  then have h2: "popover e \<notin> set (inclusive_ancestors wr q)"
    using pD path_in_nodes [of q D] by (auto simp add: docr)
  have h4: "popover e \<noteq> nid (doc wr)" using assms(1) by (simp add: docr nidD)
  from activate_ok [OF par h2 h3 h4, of B None s]
  obtain w5 where
    act: "activate B e None (s, wr)
           = Inr (s\<lparr>maxHeight := getMaxHeight B (content e) w5\<rparr>,
                  call_optional None (popover e) (button e) w5)"
    and sib: "nextElementSibling w5 (button e) = Some (popover e)"
    and fnd: "find_node w5 (popover e) = find_node wr (popover e)"
    and mnt: "body_contains wr (button e) \<longrightarrow> isMounted e w5"
    by blast
  have "body_contains wr (button e)" using bD by (simp add: body_contains_def)
  with mnt have "isMounted e w5" by simp
  with act sib fnd have "\<exists>sa wa. activate B e None (s, wr) = Inr (sa, wa)
                   \<and> isMounted e wa
                   \<and> nextElementSibling wa (button e) = Some (popover e)
                   \<and> find_node wa (popover e) = find_node wr (popover e)"
    by (simp add: call_optional_def)
  with dd unmounted rdy show ?thesis
    by (simp add: dis rem)
qed

theorem dismiss_remove_activate_witness:
  "popover example_elements \<noteq> nid (doc example_page_open)
   \<and> body_contains example_page_open (button example_elements)
   \<and> button example_elements \<noteq> nid (doc example_page_open)
   \<and> popover example_elements
        \<notin> set (inclusive_ancestors example_page_open (button example_elements))
   \<and> isMounted example_elements example_page_open
   \<and> isMounted example_elements
         (snd (dismiss example_elements None (initial_captured, example_page_open)))
   \<and> \<not> isMounted example_elements
         (snd (remove_popover example_elements
                 (dismiss example_elements None (initial_captured, example_page_open))))
   \<and> isReady example_elements
         (snd (remove_popover example_elements
                 (dismiss example_elements None (initial_captured, example_page_open))))
   \<and> (\<exists>sa wa. activate (example_browser 290) example_elements None
                   (remove_popover example_elements
                      (dismiss example_elements None (initial_captured, example_page_open)))
                 = Inr (sa, wa)
          \<and> isMounted example_elements wa
          \<and> nextElementSibling wa (button example_elements) = Some (popover example_elements))"
proof -
  have h1: "popover example_elements \<noteq> nid (doc example_page_open)"
    by (simp add: example_elements_def example_page_open_def)
  have h2: "body_contains example_page_open (button example_elements)"
    by (simp add: example_elements_def example_page_open_def body_contains_def)
  have h3: "button example_elements \<noteq> nid (doc example_page_open)"
    by (simp add: example_elements_def example_page_open_def)
  have h4: "popover example_elements
              \<notin> set (inclusive_ancestors example_page_open (button example_elements))"
    by (simp add: example_elements_def example_page_open_def inclusive_ancestors_def trees_def)
  have h5: "isMounted example_elements example_page_open"
    by (simp add: example_elements_def example_page_open_def isMounted_def body_contains_def)
  show ?thesis
    using h1 h2 h3 h4 h5
      dismiss_remove_activate [OF h1 h2 h3 h4, of initial_captured "example_browser 290"]
    by (auto simp add: Let_def isMounted_def body_contains_def split: prod.splits)
qed

text \<open>
  C6. \<open>isActive\<close> reads the \<open>is-active\<close> class of the button and nothing else. For
  a footnote whose button and popover are different nodes, and callbacks that leave
  that class alone: after any sequence of calls (\<open>activate\<close>, \<open>dismiss\<close>, \<open>ready\<close>,
  \<open>remove\<close>, \<open>reposition\<close>, \<open>resize\<close>, \<open>destroy\<close>, also an \<open>activate\<close> that throws),
  \<open>isActive\<close> is true when the most recent \<open>activate\<close> or \<open>dismiss\<close> of the
  sequence was an \<open>activate\<close>, false when it was a \<open>dismiss\<close>, and unchanged when the
  sequence has neither. In particular \<open>ready\<close> never changes it: \<open>ready\<close> leaves
  the tree, the attributes and the styles alone, and the only class memberships it can
  change are \<open>is-active\<close> on the popover and \<open>is-changing\<close> on the button.
\<close>

theorem isActive_tracks_last_toggle:
  assumes "button e \<noteq> popover e"
    and "\<forall>c\<in>set calls. keeps_active e (callback_of c)"
  shows "isActive e w = hasClass (button e) CLASS_ACTIVE w
     \<and> isActive e (snd (perform_all B e calls (s, w)))
         = (case last_toggle calls of None \<Rightarrow> isActive e w | Some a \<Rightarrow> a)
     \<and> isActive e (snd (ready e (s, w))) = isActive e w
     \<and> doc (snd (ready e (s, w))) = doc w \<and> detached (snd (ready e (s, w))) = detached w
     \<and> attrs (snd (ready e (s, w))) = attrs w \<and> styles (snd (ready e (s, w))) = styles w
     \<and> (\<forall>n c. (c \<in> classes (snd (ready e (s, w))) n) \<noteq> (c \<in> classes w n)
            \<longrightarrow> (n = popover e \<and> c = CLASS_ACTIVE) \<or> (n = button e \<and> c = CLASS_CHANGING))"
proof -
  have "isActive e (snd (perform_all B e calls (s, w)))
         = (case last_toggle calls of None \<Rightarrow> isActive e w | Some a \<Rightarrow> a)"
    using assms(2)
  proof (induction calls arbitrary: s w)
    case Nil
    then show ?case by simp
  next
    case (Cons c cs)
    obtain s1 w1 where p: "perform B e c (s, w) = (s1, w1)"
      by (cases "perform B e c (s, w)") auto
    from Cons.prems have "keeps_active e (callback_of c)" by simp
    with assms(1) have one: "isActive e w1
        = (case toggle_of c of None \<Rightarrow> isActive e w | Some a \<Rightarrow> a)"
      using active_after_perform [of e c B s w] p by simp
    from Cons.prems have "\<forall>c\<in>set cs. keeps_active e (callback_of c)" by simp
    then have "isActive e (snd (perform_all B e cs (s1, w1)))
        = (case last_toggle cs of None \<Rightarrow> isActive e w1 | Some a \<Rightarrow> a)"
      by (rule Cons.IH)
    with one p show ?case by (simp split: option.splits)
  qed
  moreover have "isActive e (snd (ready e (s, w))) = isActive e w"
    using assms(1) by (rule active_after_ready)
  moreover have "doc (snd (ready e (s, w))) = doc w \<and> detached (snd (ready e (s, w))) = detached w
     \<and> attrs (snd (ready e (s, w))) = attrs w \<and> styles (snd (ready e (s, w))) = styles w"
    by (simp add: ready_def addClass_def removeClass_def)
  moreover have "\<forall>n c. (c \<in> classes (snd (ready e (s, w))) n) \<noteq> (c \<in> classes w n)
            \<longrightarrow> (n = popover e \<and> c = CLASS_ACTIVE) \<or> (n = button e \<and> c = CLASS_CHANGING)"
    by (auto simp add: ready_def addClass_def removeClass_def split: if_splits)
  ultimately show ?thesis by (simp add: isActive_def)
qed

theorem isActive_tracks_last_toggle_witness:
  "button example_elements \<noteq> popover example_elements
   \<and> isActive example_elements
        (snd (perform_all (example_browser 290) example_elements
               [Activate None, Reposition, Ready, Dismiss None, Remove, Activate None, Resize]
               (initial_captured, example_page)))
   \<and> \<not> isActive example_elements
        (snd (perform_all (example_browser 290) example_elements
               [Activate None, Dismiss None, Ready, Reposition]
               (initial_captured, example_page)))
   \<and> \<not> isActive example_elements
        (snd (perform_all (example_browser 290) example_elements [Ready, Remove]
               (initial_captured, example_page)))"
proof -
  have h: "button example_elements \<noteq> popover example_elements"
    by (simp add: example_elements_def)
  have i: "\<not> isActive example_elements example_page"
    by (simp add: isActive_def hasClass_def example_page_def)
  show ?thesis
    using h i
      isActive_tracks_last_toggle [OF h,
        of "[Activate None, Reposition, Ready, Dismiss None, Remove, Activate None, Resize]"
           example_page "example_browser 290" initial_captured]
      isActive_tracks_last_toggle [OF h,
        of "[Activate None, Dismiss None, Ready, Reposition]"
           example_page "example_browser 290" initial_captured]
      isActive_tracks_last_toggle [OF h, of "[Ready, Remove]"
           example_page "example_browser 290" initial_captured]
    by (simp del: perform_all.simps)
qed

text \<open>
  C10. \<open>remove\<close> is idempotent. A second \<open>remove\<close> leaves the tree, the classes, the
  attributes and the styles exactly as the first one left them (only two more write
  calls are issued, and they change nothing); the captured variables are untouched;
  the button carries no \<open>is-changing\<close> class; a popover other than the body is not in
  the document; and a \<open>remove\<close> of a popover that has no parent, as before the first
  \<open>activate\<close>, leaves the tree as it is. No call can throw.
\<close>

theorem remove_popover_idempotent:
  "(let (s1, w1) = remove_popover e (s, w);
        (s2, w2) = remove_popover e (s1, w1)
    in s1 = s \<and> s2 = s
       \<and> w2 = w1\<lparr>writes := writes w1 @
                    [RemoveNode (popover e), ClassRemove (button e) CLASS_CHANGING]\<rparr>
       \<and> isReady e w1 \<and> isReady e w2
       \<and> (popover e \<noteq> nid (doc w) \<longrightarrow> \<not> isMounted e w1 \<and> \<not> isMounted e w2)
       \<and> (parentNode w (popover e) = None \<longrightarrow> doc w1 = doc w \<and> detached w1 = detached w))"
proof -
  define w1 where "w1 = removeClass (button e) CLASS_CHANGING (node_remove (popover e) w)"
  define w2 where "w2 = removeClass (button e) CLASS_CHANGING (node_remove (popover e) w1)"
  have r1: "remove_popover e (s, w) = (s, w1)"
    by (simp add: remove_popover_def w1_def)
  have r2: "remove_popover e (s, w1) = (s, w2)"
    by (simp add: remove_popover_def w2_def)
  have "trees w1 = trees (node_remove (popover e) w)" by (simp add: w1_def)
  then have "parentNode w1 = parentNode (node_remove (popover e) w)" by (rule same_trees)
  then have "parentNode w1 (popover e) = None" by (simp add: parentNode_after_remove)
  then have nr: "node_remove (popover e) w1 = w1\<lparr>writes := writes w1 @ [RemoveNode (popover e)]\<rparr>"
    by (rule node_remove_noop)
  have absent: "CLASS_CHANGING \<notin> classes w1 (button e)"
    by (simp add: w1_def removeClass_def)
  then have "(classes w1)(button e := classes w1 (button e) - {CLASS_CHANGING}) = classes w1"
    by (simp add: fun_eq_iff)
  then have eq: "w2 = w1\<lparr>writes := writes w1 @
                    [RemoveNode (popover e), ClassRemove (button e) CLASS_CHANGING]\<rparr>"
    by (simp add: w2_def nr removeClass_def)
  have ready: "isReady e w1" "isReady e w2"
    using absent by (simp_all add: isReady_def hasClass_def eq)
  have docs: "doc w1 = doc (node_remove (popover e) w)"
    "detached w1 = detached (node_remove (popover e) w)"
    by (simp_all add: w1_def removeClass_def)
  have mounted: "\<not> isMounted e w1 \<and> \<not> isMounted e w2" if "popover e \<noteq> nid (doc w)"
    using body_after_remove [OF that] by (simp add: isMounted_def body_contains_def docs eq)
  have same: "doc w1 = doc w \<and> detached w1 = detached w" if "parentNode w (popover e) = None"
    using that by (simp add: docs node_remove_noop)
  show ?thesis
    using eq ready mounted same by (simp add: r1 r2)
qed

theorem remove_popover_idempotent_witness:
  "popover example_elements \<noteq> nid (doc example_page)
   \<and> parentNode example_page (popover example_elements) = None
   \<and> \<not> isMounted example_elements
         (snd (remove_popover example_elements
            (remove_popover example_elements (initial_captured, example_page))))
   \<and> doc (snd (remove_popover example_elements (initial_captured, example_page)))
       = doc example_page
   \<and> isReady example_elements
         (snd (remove_popover example_elements
            (remove_popover example_elements (initial_captured, example_page))))"
proof -
  have a: "popover example_elements \<noteq> nid (doc example_page)"
    by (simp add: example_elements_def example_page_def)
  have b: "parentNode example_page (popover example_elements) = None"
    by (simp add: example_elements_def example_page_def parentNode_def inclusive_ancestors_def
        trees_def)
  show ?thesis
    using a b remove_popover_idempotent [of example_elements initial_captured example_page]
    by (simp add: Let_def split: prod.splits)
qed

section \<open>The event layer\<close>

text \<open>
  C8. On a page where every element with the footnote-button marker carries a
  non-empty identifier, the handler of \<open>touchend\<close> and \<open>click\<close> does exactly this.
  When the target lies inside an element with the marker, the nearest such element
  carrying the identifier \<open>i\<close>, it invokes \<open>toggle(i)\<close> and nothing else, and calls
  \<open>preventDefault\<close>. When the target lies neither inside such an element nor inside a
  popover, it invokes \<open>touchOutside()\<close>. Otherwise it invokes nothing. Both event
  types are bound to this handler as long as the registration is not aborted.
\<close>

theorem toggleOnTouch_resolution:
  assumes "buttons_identified w"
  shows "(\<forall>el i. closestTarget w ev ''data-footnote-button'' = Some el
                \<and> attrs w el ''data-footnote-id'' = Some i
            \<longrightarrow> toggleOnTouch w ev = ([Toggle i], True))
       \<and> (closestTarget w ev ''data-footnote-button'' = None
            \<and> closestTarget w ev ''data-footnote-popover'' = None
            \<longrightarrow> toggleOnTouch w ev = ([TouchOutside], False))
       \<and> (closestTarget w ev ''data-footnote-button'' = None
            \<and> closestTarget w ev ''data-footnote-popover'' \<noteq> None
            \<longrightarrow> toggleOnTouch w ev = ([], False))
       \<and> (closestTarget w ev ''data-footnote-button'' \<noteq> None
            \<longrightarrow> (\<exists>i. toggleOnTouch w ev = ([Toggle i], True)))
       \<and> ((etype ev = ''touchend'' \<or> etype ev = ''click'') \<and> \<not> aborted l
            \<longrightarrow> dispatch w ev l = (toggleOnTouch w ev, l))"
proof -
  have in_button: "toggleOnTouch w ev = ([Toggle i], True)"
    if "closestTarget w ev ''data-footnote-button'' = Some el"
      and "attrs w el ''data-footnote-id'' = Some i" for el i
  proof -
    from that(1) have "attrs w el ''data-footnote-button'' \<noteq> None"
      unfolding closestTarget_def by (rule closest_carries)
    with assms that(2) have "i \<noteq> []" by (auto simp add: buttons_identified_def)
    with that show ?thesis
      by (simp add: toggleOnTouch_def getFootnoteId_def if_truthy_def)
  qed
  have some_button: "\<exists>i. toggleOnTouch w ev = ([Toggle i], True)"
    if "closestTarget w ev ''data-footnote-button'' \<noteq> None"
  proof -
    from that obtain el where el: "closestTarget w ev ''data-footnote-button'' = Some el"
      by auto
    then have "attrs w el ''data-footnote-button'' \<noteq> None"
      unfolding closestTarget_def by (rule closest_carries)
    with assms obtain i where "attrs w el ''data-footnote-id'' = Some i"
      by (auto simp add: buttons_identified_def)
    with el in_button show ?thesis by blast
  qed
  have outside: "toggleOnTouch w ev = ([TouchOutside], False)"
    if "closestTarget w ev ''data-footnote-button'' = None"
      and "closestTarget w ev ''data-footnote-popover'' = None"
    using that by (simp add: toggleOnTouch_def getFootnoteId_def if_truthy_def)
  have in_popover: "toggleOnTouch w ev = ([], False)"
    if "closestTarget w ev ''data-footnote-button'' = None"
      and "closestTarget w ev ''data-footnote-popover'' \<noteq> None"
    using that by (simp add: toggleOnTouch_def getFootnoteId_def if_truthy_def)
  have bound: "dispatch w ev l = (toggleOnTouch w ev, l)"
    if "etype ev = ''touchend'' \<or> etype ev = ''click''" and "\<not> aborted l"
    using that by (auto simp add: dispatch_def)
  show ?thesis
    using in_button some_button outside in_popover bound by blast
qed

theorem toggleOnTouch_resolution_witness:
  "buttons_identified example_page_open
   \<and> closestTarget example_page_open (example_event ''click'' 2) ''data-footnote-button''
       = Some 2
   \<and> attrs example_page_open 2 ''data-footnote-id'' = Some ''3''
   \<and> toggleOnTouch example_page_open (example_event ''click'' 2) = ([Toggle ''3''], True)
   \<and> closestTarget example_page_open (example_event ''click'' 0) ''data-footnote-button'' = None
   \<and> closestTarget example_page_open (example_event ''click'' 0) ''data-footnote-popover'' = None
   \<and> toggleOnTouch example_page_open (example_event ''click'' 0) = ([TouchOutside], False)
   \<and> closestTarget example_page_open (example_event ''touchend'' 5) ''data-footnote-button''
       = None
   \<and> closestTarget example_page_open (example_event ''touchend'' 5) ''data-footnote-popover''
       \<noteq> None
   \<and> toggleOnTouch example_page_open (example_event ''touchend'' 5) = ([], False)
   \<and> \<not> aborted (addListeners 0)
   \<and> dispatch example_page_open (example_event ''click'' 2) (addListeners 0)
       = (([Toggle ''3''], True), addListeners 0)"
proof -
  have h: "buttons_identified example_page_open"
    by (auto simp add: buttons_identified_def example_page_open_def example_page_def
        split: if_splits)
  have c1: "closestTarget example_page_open (example_event ''click'' 2) ''data-footnote-button''
       = Some 2"
    and c2: "attrs example_page_open 2 ''data-footnote-id'' = Some ''3''"
    and c3: "closestTarget example_page_open (example_event ''click'' 0)
               ''data-footnote-button'' = None"
    and c4: "closestTarget example_page_open (example_event ''click'' 0)
               ''data-footnote-popover'' = None"
    and c5: "closestTarget example_page_open (example_event ''touchend'' 5)
               ''data-footnote-button'' = None"
    and c6: "closestTarget example_page_open (example_event ''touchend'' 5)
               ''data-footnote-popover'' \<noteq> None"
    by (simp_all add: closestTarget_def closest_def inclusive_ancestors_def trees_def
        example_event_def example_page_open_def example_page_def)
  have c7: "\<not> aborted (addListeners 0)" by (simp add: addListeners_def)
  have c8: "etype (example_event ''click'' 2) = ''click''" by (simp add: example_event_def)
  show ?thesis
    using h c1 c2 c3 c4 c5 c6 c7 c8
      toggleOnTouch_resolution [OF h, of "example_event ''click'' 2" "addListeners 0"]
      toggleOnTouch_resolution [OF h, of "example_event ''click'' 0" "addListeners 0"]
      toggleOnTouch_resolution [OF h, of "example_event ''touchend'' 5" "addListeners 0"]
    by simp
qed

text \<open>
  C3, as stated, fails. A scroll at time 0 runs \<open>repositionAll\<close> at once; a second
  scroll at time 5 falls inside the 16 ms window and schedules the trailing call for
  time 16 (this is \<open>example_burst\<close>); the teardown function runs; when the timer
  fires at time 16, \<open>repositionAll\<close> is invoked although the registration has been
  torn down.
\<close>

theorem trailing_call_survives_teardown:
  "pending_trailing (snd (run example_page example_burst (addListeners 0))) = [RepositionAll]
   \<and> aborted (teardown (snd (run example_page example_burst (addListeners 0))))
   \<and> fst (run example_page [Advance 11]
            (teardown (snd (run example_page example_burst (addListeners 0)))))
       = [RepositionAll]"
  by (simp add: addListeners_def throttle_def dispatch_def example_event_def throttle_call_def
      advance_def throttle_fire_def teardown_def pending_trailing_def Let_def
      example_burst_def)

text \<open>
  C3, amended. After the teardown function has run, no event of any type invokes a
  handler of the registration: every dispatch returns no action, prevents nothing and
  leaves the state as it is. Teardown does not cancel a trailing call of
  \<open>repositionAll\<close> or \<open>resizeAll\<close> that is already scheduled: whatever happens
  afterwards, such a pending call invokes its registry action as soon as the clock
  reaches the time its timer is due, not before, and once only; nothing else is
  invoked, and with no call pending nothing is ever invoked.
\<close>

theorem teardown_stops_listeners:
  "aborted (teardown l)
   \<and> dispatch w ev (teardown l) = (([], False), teardown l)
   \<and> distinct (fst (run w inputs (teardown l)))
   \<and> set (fst (run w inputs (teardown l))) \<subseteq> set (pending_trailing l)
   \<and> (pending_trailing l = [] \<longrightarrow> fst (run w inputs (teardown l)) = [])
   \<and> (timer (throttledReposition l) = Some (d, i, a) \<and> clock l < d
        \<longrightarrow> (RepositionAll \<in> set (fst (run w inputs (teardown l))))
            = (d \<le> clock (snd (run w inputs (teardown l)))))
   \<and> (timer (throttledResize l) = Some (d', i', a') \<and> clock l < d'
        \<longrightarrow> (ResizeAll \<in> set (fst (run w inputs (teardown l))))
            = (d' \<le> clock (snd (run w inputs (teardown l)))))"
proof -
  have ab: "aborted (teardown l)" by (simp add: teardown_def)
  have p: "pending_trailing (teardown l) = pending_trailing l"
    by (simp add: teardown_def pending_trailing_def)
  from ab have ds: "dispatch w ev (teardown l) = (([], False), teardown l)"
    by (rule dispatch_aborted)
  from run_aborted [OF ab, of w inputs] p have
    r: "distinct (fst (run w inputs (teardown l)))"
      "set (fst (run w inputs (teardown l))) \<subseteq> set (pending_trailing l)"
    by simp_all
  from r(2) have none: "pending_trailing l = [] \<longrightarrow> fst (run w inputs (teardown l)) = []"
    by auto
  have rep: "(RepositionAll \<in> set (fst (run w inputs (teardown l))))
            = (d \<le> clock (snd (run w inputs (teardown l))))"
    if "timer (throttledReposition l) = Some (d, i, a)" and "clock l < d"
    using that by (intro run_pending_reposition [OF ab]) (simp_all add: teardown_def)
  have res: "(ResizeAll \<in> set (fst (run w inputs (teardown l))))
            = (d' \<le> clock (snd (run w inputs (teardown l))))"
    if "timer (throttledResize l) = Some (d', i', a')" and "clock l < d'"
    using that by (intro run_pending_resize [OF ab]) (simp_all add: teardown_def)
  from ab ds r none rep res show ?thesis by blast
qed

theorem teardown_stops_listeners_witness:
  "pending_trailing (addListeners 0) = []
   \<and> fst (run example_page_open
            [Dispatch (example_event ''click'' 2), Dispatch (example_event ''scroll'' 0),
             Advance 100, Dispatch (example_event ''resize'' 0)]
            (teardown (addListeners 0))) = []
   \<and> fst (run example_page_open
            [Dispatch (example_event ''click'' 2), Dispatch (example_event ''scroll'' 0),
             Advance 100, Dispatch (example_event ''resize'' 0)]
            (addListeners 0)) = [Toggle ''3'', RepositionAll, ResizeAll]
   \<and> timer (throttledReposition (snd (run example_page example_burst (addListeners 0))))
       = Some (16, 0, example_event ''scroll'' 0)
   \<and> clock (snd (run example_page example_burst (addListeners 0))) < 16
   \<and> clock (snd (run example_page
                   [Dispatch (example_event ''click'' 2), Advance 10,
                    Dispatch (example_event ''scroll'' 0)]
                   (teardown (snd (run example_page example_burst (addListeners 0)))))) = 15
   \<and> RepositionAll \<notin> set (fst (run example_page
                   [Dispatch (example_event ''click'' 2), Advance 10,
                    Dispatch (example_event ''scroll'' 0)]
                   (teardown (snd (run example_page example_burst (addListeners 0))))))
   \<and> clock (snd (run example_page
                   [Advance 10, Dispatch (example_event ''scroll'' 0), Advance 2, Advance 50]
                   (teardown (snd (run example_page example_burst (addListeners 0)))))) = 67
   \<and> fst (run example_page
            [Advance 10, Dispatch (example_event ''scroll'' 0), Advance 2, Advance 50]
            (teardown (snd (run example_page example_burst (addListeners 0)))))
       = [RepositionAll]
   \<and> fst (run example_page
            [Dispatch (example_event ''scroll'' 0), Dispatch (example_event ''resize'' 0),
             Advance 5, Dispatch (example_event ''resize'' 0),
             Dispatch (example_event ''scroll'' 0), Advance 11]
            (addListeners 0)) = [RepositionAll, ResizeAll, ResizeAll, RepositionAll]"
proof -
  define l0 where "l0 = snd (run example_page example_burst (addListeners 0))"
  have l0: "l0 = \<lparr>aborted = False,
                  throttledReposition =
                    \<lparr>lastRun = Some 0, timer = Some (16, 0, example_event ''scroll'' 0)\<rparr>,
                  throttledResize = \<lparr>lastRun = None, timer = None\<rparr>,
                  clock = 5, nextTimer = 1\<rparr>"
    by (simp add: l0_def addListeners_def throttle_def dispatch_def example_event_def
        throttle_call_def advance_def throttle_fire_def Let_def example_burst_def)
  have h: "pending_trailing (addListeners 0) = []"
    by (simp add: pending_trailing_def addListeners_def throttle_def)
  have live: "fst (run example_page_open
            [Dispatch (example_event ''click'' 2), Dispatch (example_event ''scroll'' 0),
             Advance 100, Dispatch (example_event ''resize'' 0)]
            (addListeners 0)) = [Toggle ''3'', RepositionAll, ResizeAll]"
    by (simp add: addListeners_def throttle_def dispatch_def example_event_def
        throttle_call_def advance_def throttle_fire_def Let_def toggleOnTouch_def
        closestTarget_def closest_def inclusive_ancestors_def trees_def getFootnoteId_def
        if_truthy_def example_page_open_def example_page_def)
  have early: "run example_page
                   [Dispatch (example_event ''click'' 2), Advance 10,
                    Dispatch (example_event ''scroll'' 0)] (teardown l0)
               = ([], (teardown l0)\<lparr>clock := 15\<rparr>)"
    by (simp add: l0 teardown_def dispatch_def advance_def throttle_fire_def Let_def)
  have late: "run example_page
            [Advance 10, Dispatch (example_event ''scroll'' 0), Advance 2, Advance 50]
            (teardown l0)
       = ([RepositionAll],
          (teardown l0)\<lparr>throttledReposition := \<lparr>lastRun = Some 16, timer = None\<rparr>,
                         clock := 67\<rparr>)"
    by (simp add: l0 teardown_def dispatch_def advance_def throttle_fire_def Let_def)
  have tie: "fst (run example_page
            [Dispatch (example_event ''scroll'' 0), Dispatch (example_event ''resize'' 0),
             Advance 5, Dispatch (example_event ''resize'' 0),
             Dispatch (example_event ''scroll'' 0), Advance 11]
            (addListeners 0)) = [RepositionAll, ResizeAll, ResizeAll, RepositionAll]"
    by (simp add: addListeners_def throttle_def dispatch_def example_event_def
        throttle_call_def advance_def throttle_fire_def fires_before_def Let_def)
  have t: "timer (throttledReposition l0) = Some (16, 0, example_event ''scroll'' 0)"
    "clock l0 < 16"
    by (simp_all add: l0)
  show ?thesis
    unfolding l0_def [symmetric]
    using h live t tie
      teardown_stops_listeners [of "addListeners 0" example_page_open
        "example_event ''click'' 2"
        "[Dispatch (example_event ''click'' 2), Dispatch (example_event ''scroll'' 0),
          Advance 100, Dispatch (example_event ''resize'' 0)]"]
      teardown_stops_listeners [of l0 example_page "example_event ''click'' 2"
        "[Dispatch (example_event ''click'' 2), Advance 10,
          Dispatch (example_event ''scroll'' 0)]" 16 0 "example_event ''scroll'' 0"]
      teardown_stops_listeners [of l0 example_page "example_event ''click'' 2"
        "[Advance 10, Dispatch (example_event ''scroll'' 0), Advance 2, Advance 50]"
        16 0 "example_event ''scroll'' 0"]
    by (simp add: early late del: run.simps)
qed

end
